theory Spec2Isabelle
  imports Complex_Main "HOL-Library.AList" "HOL-Library.Char_ord" "HOL-Library.List_Lexorder"
    "HOL-Library.Multiset"
begin

section \<open>Values, strings and the random source\<close>

text \<open>
  A Python \<open>str\<close> is a sequence of code points, so string values are lists of natural
  numbers; dictionary keys and type names, which are ASCII literals of the scripts, are
  \<open>string\<close>s. A \<open>dict\<close> keeps insertion order and is an association list, updated with
  \<open>AList.update\<close> (an existing key keeps its place, a new key goes to the end). A Python
  \<open>float\<close> is the real number that the double denotes: a literal is the exact value of
  its double, and \<open>round_double\<close> rounds the result of an operation to the nearest
  double, ties to even (results beyond the largest double, which become infinities, do not
  arise from the bounded operands below). A \<open>datetime\<close> is the number of microseconds since
  0001-01-01T00:00:00, and \<open>JIso t\<close> stands for the string \<open>t.isoformat()\<close>, kept
  symbolic: only the instant it denotes matters below.
\<close>

type_synonym pystr = "nat list"
type_synonym datetime = nat

datatype json =
    JNull
  | JBool bool
  | JInt int
  | JFloat real
  | JStr pystr
  | JIso datetime
  | JArr "json list"
  | JObj "(string \<times> json) list"

text \<open>
  The module \<open>random\<close> is the only source of randomness. Its generator is a parameter of
  the model: a seeding function and the two primitives on which CPython builds every draw
  used here, \<open>random()\<close> and \<open>_randbelow(n)\<close>, each returning the draw and the next
  generator state. The global generator state of the scripts is passed explicitly.
\<close>

record 'g rng =
  rnd_seed :: "int \<Rightarrow> 'g"
  rnd_random :: "'g \<Rightarrow> real \<times> 'g"
  rnd_randbelow :: "nat \<Rightarrow> 'g \<Rightarrow> nat \<times> 'g"

text \<open>
  \<open>randint(a, b)\<close> is \<open>a + _randbelow(b - a + 1)\<close>, \<open>choice(xs)\<close> is
  \<open>xs[_randbelow(len(xs))]\<close>, \<open>choices(pop, k=k)\<close> is
  \<open>[pop[floor(random() * len(pop))] for _ in range(k)]\<close> and \<open>uniform(a, b)\<close> is
  \<open>a + (b - a) * random()\<close>, each operation rounded. Every call below passes a non-empty list or range, so the
  \<open>IndexError\<close> and \<open>ValueError\<close> of the library on empty ones cannot occur.
\<close>

definition randint :: "'g rng \<Rightarrow> int \<Rightarrow> int \<Rightarrow> 'g \<Rightarrow> int \<times> 'g" where
  "randint R a b g = (let (k, g') = rnd_randbelow R (nat (b - a + 1)) g in (a + int k, g'))"

definition choice :: "'g rng \<Rightarrow> 'a list \<Rightarrow> 'g \<Rightarrow> 'a \<times> 'g" where
  "choice R xs g = (let (i, g') = rnd_randbelow R (length xs) g in (xs ! i, g'))"

primrec choices :: "'g rng \<Rightarrow> 'a list \<Rightarrow> nat \<Rightarrow> 'g \<Rightarrow> 'a list \<times> 'g" where
  "choices R pop 0 g = ([], g)"
| "choices R pop (Suc k) g =
     (let (r, g1) = rnd_random R g;
          (rest, g2) = choices R pop k g1
      in (pop ! nat \<lfloor>r * real (length pop)\<rfloor> # rest, g2))"

definition round_half_even :: "real \<Rightarrow> int" where
  "round_half_even y =
     (let f = \<lfloor>y\<rfloor>; d = y - of_int f
      in if d < 1 / 2 then f else if 1 / 2 < d then f + 1 else if even f then f else f + 1)"

definition round_double :: "real \<Rightarrow> real" where
  "round_double x =
     (if x = 0 then 0
      else let e = max \<lfloor>log 2 \<bar>x\<bar>\<rfloor> (- 1022);
               ulp = 2 powr (of_int e - 52)
           in of_int (round_half_even (x / ulp)) * ulp)"

definition uniform :: "'g rng \<Rightarrow> real \<Rightarrow> real \<Rightarrow> 'g \<Rightarrow> real \<times> 'g" where
  "uniform R a b g =
     (let (r, g') = rnd_random R g
      in (round_double (a + round_double (round_double (b - a) * r)), g'))"

definition FIELD_TYPES :: "string list" where
  "FIELD_TYPES = [''string'', ''integer'', ''float'', ''boolean'', ''null'', ''object'', ''array'']"

definition STRING_LENGTHS :: "int list" where
  "STRING_LENGTHS = [1, 10, 100, 1000, 10000, 100000]"

definition ARRAY_SIZES :: "int list" where
  "ARRAY_SIZES = [1, 10, 100, 1000, 10000]"

text \<open>
  \<open>string.ascii_letters + string.digits + string.punctuation\<close>: 94 code points.
\<close>

definition palette :: pystr where
  "palette = [97..<123] @ [65..<91] @ [48..<58] @ [33..<48] @ [58..<65] @ [91..<97] @ [123..<127]"

definition generate_string :: "'g rng \<Rightarrow> int \<Rightarrow> 'g \<Rightarrow> pystr \<times> 'g" where
  "generate_string R len g =
     (if len = 0 then ([], g) else choices R palette (nat len) g)"

definition generate_integer :: "'g rng \<Rightarrow> 'g \<Rightarrow> int \<times> 'g" where
  "generate_integer R g = randint R (- 1000000) 1000000 g"

definition generate_float :: "'g rng \<Rightarrow> 'g \<Rightarrow> real \<times> 'g" where
  "generate_float R g = uniform R (- 1000000) 1000000 g"

definition generate_boolean :: "'g rng \<Rightarrow> 'g \<Rightarrow> bool \<times> 'g" where
  "generate_boolean R g = choice R [True, False] g"

text \<open>Decimal rendering of integers, as \<open>str(i)\<close> and the f-strings do.\<close>

fun str_nat :: "nat \<Rightarrow> string" where
  "str_nat n =
     (if n < 10 then [''0123456789'' ! n]
      else str_nat (n div 10) @ [''0123456789'' ! (n mod 10)])"

declare str_nat.simps [simp del]

definition str_int :: "int \<Rightarrow> string" where
  "str_int i = (if i < 0 then CHR ''-'' # str_nat (nat (- i)) else str_nat (nat i))"

definition pystr :: "string \<Rightarrow> pystr" where
  "pystr s = map of_char s"

definition field_name :: "nat \<Rightarrow> string" where
  "field_name i = ''field_'' @ str_nat i"

section \<open>Composite generators\<close>

text \<open>
  \<open>generate_array\<close> and \<open>generate_object\<close> call each other. \<open>array_loop\<close> and
  \<open>object_loop\<close> are their \<open>for\<close> loops; \<open>array_elem\<close> and \<open>object_value\<close> are the
  \<open>if\<close>/\<open>elif\<close> chains of one iteration, which give \<open>Some v\<close> where the source appends
  or assigns \<open>v\<close> and \<open>None\<close> where no branch is taken. \<open>range(n)\<close> is empty for
  \<open>n \<le> 0\<close>, hence the \<open>nat\<close> conversions.
\<close>

function generate_array :: "'g rng \<Rightarrow> int \<Rightarrow> string \<Rightarrow> 'g \<Rightarrow> json list \<times> 'g"
  and array_loop :: "'g rng \<Rightarrow> string \<Rightarrow> nat \<Rightarrow> json list \<Rightarrow> 'g \<Rightarrow> json list \<times> 'g"
  and array_elem :: "'g rng \<Rightarrow> string \<Rightarrow> 'g \<Rightarrow> json option \<times> 'g"
  and generate_object :: "'g rng \<Rightarrow> int \<Rightarrow> 'g \<Rightarrow> (string \<times> json) list \<times> 'g"
  and object_loop ::
    "'g rng \<Rightarrow> int \<Rightarrow> nat \<Rightarrow> nat \<Rightarrow> (string \<times> json) list \<Rightarrow> 'g \<Rightarrow> (string \<times> json) list \<times> 'g"
  and object_value :: "'g rng \<Rightarrow> int \<Rightarrow> string \<Rightarrow> 'g \<Rightarrow> json option \<times> 'g"
where
  "generate_array R sz t g =
     (if sz = 0 then ([], g) else array_loop R t (nat sz) [] g)"
| "array_loop R t n array g =
     (if n = 0 then (array, g)
      else let (elem, g') = array_elem R t g
           in array_loop R t (n - 1) (case elem of None \<Rightarrow> array | Some v \<Rightarrow> array @ [v]) g')"
| "array_elem R t g =
     (if t = ''string'' then
        (let (len, g1) = choice R STRING_LENGTHS g;
             (s, g2) = generate_string R len g1 in (Some (JStr s), g2))
      else if t = ''integer'' then
        (let (i, g1) = generate_integer R g in (Some (JInt i), g1))
      else if t = ''float'' then
        (let (x, g1) = generate_float R g in (Some (JFloat x), g1))
      else if t = ''boolean'' then
        (let (b, g1) = generate_boolean R g in (Some (JBool b), g1))
      else if t = ''null'' then (Some JNull, g)
      else if t = ''object'' then
        (let (d, g1) = randint R 1 5 g;
             (obj, g2) = generate_object R d g1 in (Some (JObj obj), g2))
      else if t = ''array'' then
        (let (k, g1) = randint R 1 10 g;
             (arr, g2) = generate_array R k ''string'' g1 in (Some (JArr arr), g2))
      else (None, g))"
| "generate_object R depth g =
     (if depth \<le> 0 then ([], g)
      else let (field_count, g1) = randint R 1 10 g
           in object_loop R depth 0 (nat field_count) [] g1)"
| "object_loop R depth i field_count obj g =
     (if field_count \<le> i then (obj, g)
      else let (field_type, g0) = choice R FIELD_TYPES g;
               (val, g') = object_value R depth field_type g0
           in object_loop R depth (Suc i) field_count
                (case val of None \<Rightarrow> obj | Some v \<Rightarrow> AList.update (field_name i) v obj) g')"
| "object_value R depth field_type g =
     (if field_type = ''string'' then
        (let (len, g1) = choice R STRING_LENGTHS g;
             (s, g2) = generate_string R len g1 in (Some (JStr s), g2))
      else if field_type = ''integer'' then
        (let (n, g1) = generate_integer R g in (Some (JInt n), g1))
      else if field_type = ''float'' then
        (let (x, g1) = generate_float R g in (Some (JFloat x), g1))
      else if field_type = ''boolean'' then
        (let (b, g1) = generate_boolean R g in (Some (JBool b), g1))
      else if field_type = ''null'' then (Some JNull, g)
      else if field_type = ''object'' \<and> depth > 1 then
        (let (sub, g1) = generate_object R (depth - 1) g in (Some (JObj sub), g1))
      else if field_type = ''array'' then
        (let (k, g1) = choice R ARRAY_SIZES g;
             (arr, g2) = generate_array R k ''string'' g1 in (Some (JArr arr), g2))
      else (None, g))"
  by pat_completeness auto

text \<open>
  Termination: an array of objects or arrays is above every object, an object is above
  the arrays of strings it contains, the depth of an object decreases, and each loop
  counts down.
\<close>

termination
  apply (relation "inv_image (less_than <*lex*> less_than <*lex*> less_than <*lex*> less_than)
    (\<lambda>x. case x of
        Inl (Inl (R, sz, t, g)) \<Rightarrow> (if t = ''object'' \<or> t = ''array'' then 2 else 0, 0, 2, 0)
      | Inl (Inr (Inl (R, t, n, array, g))) \<Rightarrow>
          (if t = ''object'' \<or> t = ''array'' then 2 else 0, 0, 1, n)
      | Inl (Inr (Inr (R, t, g))) \<Rightarrow> (if t = ''object'' \<or> t = ''array'' then 2 else 0, 0, 0, 0)
      | Inr (Inl (R, depth, g)) \<Rightarrow> (1::nat, nat depth, 2::nat, 0::nat)
      | Inr (Inr (Inl (R, depth, i, field_count, obj, g))) \<Rightarrow> (1, nat depth, 1, field_count - i)
      | Inr (Inr (Inr (R, depth, field_type, g))) \<Rightarrow> (1, nat depth, 0, 0))")
  apply (auto split: prod.splits)
  done

declare generate_array.simps [simp del] array_loop.simps [simp del] array_elem.simps [simp del]
declare generate_object.simps [simp del] object_loop.simps [simp del]
declare object_value.simps [simp del]

section \<open>Unicode strings\<close>

text \<open>
  One iteration of the loop of \<open>generate_unicode_string\<close> draws \<open>random()\<close> afresh in
  every \<open>if\<close>/\<open>elif\<close> condition it reaches, then the code point with \<open>randint\<close>. The
  thresholds are the doubles that the literals \<open>0.3\<close>, \<open>0.5\<close> and \<open>0.7\<close> denote:
  \<open>5404319552844595 / 2^54\<close>, \<open>1 / 2\<close> and \<open>3152519739159347 / 2^52\<close>. \<open>chr\<close> accepts
  every code point from 0 to \<open>0x10FFFF\<close>, surrogates included, and raises beyond; the
  four ranges passed to \<open>randint\<close> stay below that bound.
\<close>

definition d_0_3 :: real where
  "d_0_3 = 5404319552844595 / 18014398509481984"

definition d_0_5 :: real where
  "d_0_5 = 1 / 2"

definition d_0_7 :: real where
  "d_0_7 = 3152519739159347 / 4503599627370496"

definition unicode_char :: "'g rng \<Rightarrow> 'g \<Rightarrow> nat \<times> 'g" where
  "unicode_char R g =
     (let (r1, g1) = rnd_random R g in
      if r1 < d_0_3 then
        (let (c, g') = randint R 32 126 g1 in (nat c, g'))
      else
        let (r2, g2) = rnd_random R g1 in
        if r2 < d_0_5 then
          (let (c, g') = randint R 128 255 g2 in (nat c, g'))
        else
          let (r3, g3) = rnd_random R g2 in
          if r3 < d_0_7 then
            (let (c, g') = randint R 0x100 0xFFFF g3 in (nat c, g'))
          else
            (let (c, g') = randint R 0x10000 0x10FFFF g3 in (nat c, g')))"

primrec unicode_loop :: "'g rng \<Rightarrow> nat \<Rightarrow> 'g \<Rightarrow> pystr \<times> 'g" where
  "unicode_loop R 0 g = ([], g)"
| "unicode_loop R (Suc n) g =
     (let (c, g1) = unicode_char R g;
          (chars, g2) = unicode_loop R n g1
      in (c # chars, g2))"

definition generate_unicode_string :: "'g rng \<Rightarrow> int \<Rightarrow> 'g \<Rightarrow> pystr \<times> 'g" where
  "generate_unicode_string R len g =
     (if len = 0 then ([], g) else unicode_loop R (nat len) g)"

definition is_surrogate :: "nat \<Rightarrow> bool" where
  "is_surrogate c \<longleftrightarrow> 0xD800 \<le> c \<and> c \<le> 0xDFFF"

text \<open>The band of a code point: 0 ASCII, 1 Latin-1, 2 the rest of the BMP, 3 above.\<close>

definition band_of :: "nat \<Rightarrow> nat" where
  "band_of c = (if c < 128 then 0 else if c < 0x100 then 1 else if c < 0x10000 then 2 else 3)"

section \<open>Records\<close>

text \<open>
  \<open>record_value\<close> is the \<open>if\<close>/\<open>elif\<close> chain of one iteration of \<open>generate_record\<close>,
  \<open>record_loop\<close> the loop over \<open>enumerate(field_types)\<close>.
\<close>

definition record_value :: "'g rng \<Rightarrow> string \<Rightarrow> 'g \<Rightarrow> json option \<times> 'g" where
  "record_value R field_type g =
     (if field_type = ''string'' then
        (let (len, g1) = choice R STRING_LENGTHS g;
             (s, g2) = generate_string R len g1 in (Some (JStr s), g2))
      else if field_type = ''integer'' then
        (let (n, g1) = generate_integer R g in (Some (JInt n), g1))
      else if field_type = ''float'' then
        (let (x, g1) = generate_float R g in (Some (JFloat x), g1))
      else if field_type = ''boolean'' then
        (let (b, g1) = generate_boolean R g in (Some (JBool b), g1))
      else if field_type = ''null'' then (Some JNull, g)
      else if field_type = ''object'' then
        (let (d, g1) = randint R 1 3 g;
             (obj, g2) = generate_object R d g1 in (Some (JObj obj), g2))
      else if field_type = ''array'' then
        (let (k, g1) = choice R ARRAY_SIZES g;
             (arr, g2) = generate_array R k ''string'' g1 in (Some (JArr arr), g2))
      else (None, g))"

fun record_loop ::
  "'g rng \<Rightarrow> nat \<Rightarrow> string list \<Rightarrow> (string \<times> json) list \<Rightarrow> 'g \<Rightarrow> (string \<times> json) list \<times> 'g"
where
  "record_loop R i [] record g = (record, g)"
| "record_loop R i (field_type # rest) record g =
     (let (val, g') = record_value R field_type g
      in record_loop R (Suc i) rest
           (case val of None \<Rightarrow> record | Some v \<Rightarrow> AList.update (field_name i) v record) g')"

definition generate_record :: "'g rng \<Rightarrow> string list \<Rightarrow> 'g \<Rightarrow> (string \<times> json) list \<times> 'g" where
  "generate_record R field_types g = record_loop R 0 field_types [] g"

section \<open>Time series, log and compression data\<close>

datatype error =
  OverflowError | KeyError | FileNotFoundError | JSONDecodeError | TypeError

text \<open>
  \<open>datetime\<close> holds instants from 0001-01-01T00:00:00 to 9999-12-31T23:59:59.999999, and
  adding a \<open>timedelta\<close> raises \<open>OverflowError\<close> when the sum leaves that range.
\<close>

definition DT_LIMIT :: nat where
  "DT_LIMIT = 3652059 * 86400 * 1000000"

definition add_seconds :: "datetime \<Rightarrow> int \<Rightarrow> error + datetime" where
  "add_seconds t s =
     (let t' = int t + s * 1000000
      in if 0 \<le> t' \<and> t' < int DT_LIMIT then Inr (nat t') else Inl OverflowError)"

fun time_series_loop ::
  "'g rng \<Rightarrow> nat \<Rightarrow> datetime \<Rightarrow> json list \<Rightarrow> 'g \<Rightarrow> error + json list \<times> 'g"
where
  "time_series_loop R 0 current_time records g = Inr (records, g)"
| "time_series_loop R (Suc n) current_time records g =
     (let (v, g1) = generate_float R g;
          (c, g2) = choice R [''A'', ''B'', ''C'', ''D''] g1;
          (l, g3) = choice R [''DEBUG'', ''INFO'', ''WARN'', ''ERROR''] g2;
          (len, g4) = randint R 10 100 g3;
          (m, g5) = generate_string R len g4;
          record = JObj [(''timestamp'', JIso current_time), (''value'', JFloat v),
                         (''category'', JStr (pystr c)), (''level'', JStr (pystr l)),
                         (''message'', JStr m)];
          (step, g6) = randint R 1 3600 g5
      in case add_seconds current_time step of
           Inl e \<Rightarrow> Inl e
         | Inr t' \<Rightarrow> time_series_loop R n t' (records @ [record]) g6)"

definition generate_time_series_data ::
  "'g rng \<Rightarrow> int \<Rightarrow> datetime \<Rightarrow> 'g \<Rightarrow> error + json list \<times> 'g"
where
  "generate_time_series_data R cnt start_time g =
     time_series_loop R (nat cnt) start_time [] g"

text \<open>
  \<open>datetime.now()\<close> reads the wall clock, which is no function of the seed. The clock is
  a parameter \<open>now\<close>: \<open>now i\<close> is the reading taken while record \<open>i\<close> is built.
\<close>

fun log_loop ::
  "'g rng \<Rightarrow> (nat \<Rightarrow> datetime) \<Rightarrow> nat \<Rightarrow> nat \<Rightarrow> json list \<Rightarrow> 'g \<Rightarrow> json list \<times> 'g"
where
  "log_loop R now i 0 records g = (records, g)"
| "log_loop R now i (Suc n) records g =
     (let (l, g1) = choice R [''DEBUG'', ''INFO'', ''WARN'', ''ERROR'', ''FATAL''] g;
          (lg, g2) = choice R [''service'', ''controller'', ''repository''] g1;
          (len, g3) = randint R 20 200 g2;
          (m, g4) = generate_string R len g3;
          (th, g5) = randint R 1 10 g4;
          (u, g6) = randint R 1 10000 g5;
          (s, g7) = generate_string R 32 g6;
          (r, g8) = generate_string R 16 g7;
          (d, g9) = randint R 1 5000 g8;
          (mem, g10) = randint R 100 10000 g9;
          record = JObj [(''timestamp'', JIso (now i)), (''level'', JStr (pystr l)),
                         (''logger'', JStr (pystr (''com.example.'' @ lg))),
                         (''message'', JStr m),
                         (''thread'', JStr (pystr (''thread-'' @ str_int th))),
                         (''user_id'', JInt u), (''session_id'', JStr s),
                         (''request_id'', JStr r), (''duration_ms'', JInt d),
                         (''memory_mb'', JInt mem)]
      in log_loop R now (Suc i) n (records @ [record]) g10)"

definition generate_log_data ::
  "'g rng \<Rightarrow> (nat \<Rightarrow> datetime) \<Rightarrow> int \<Rightarrow> 'g \<Rightarrow> json list \<times> 'g"
where
  "generate_log_data R now cnt g = log_loop R now 0 (nat cnt) [] g"

fun compression_loop ::
  "'g rng \<Rightarrow> (nat \<Rightarrow> datetime) \<Rightarrow> pystr \<Rightarrow> (string \<times> json) list \<Rightarrow> nat \<Rightarrow> nat \<Rightarrow> json list \<Rightarrow> 'g
     \<Rightarrow> json list \<times> 'g"
where
  "compression_loop R now base_string base_object i 0 records g = (records, g)"
| "compression_loop R now base_string base_object i (Suc n) records g =
     (let (v, g1) = generate_string R 10 g;
          record = JObj [(''id'', JInt (int i)), (''base_string'', JStr base_string),
                         (''base_object'', JObj base_object), (''varying_field'', JStr v),
                         (''timestamp'', JIso (now i))]
      in compression_loop R now base_string base_object (Suc i) n (records @ [record]) g1)"

definition generate_compression_test_data ::
  "'g rng \<Rightarrow> (nat \<Rightarrow> datetime) \<Rightarrow> int \<Rightarrow> 'g \<Rightarrow> json list \<times> 'g"
where
  "generate_compression_test_data R now cnt g =
     (let (base_string, g1) = generate_string R 1000 g;
          (base_object, g2) = generate_object R 2 g1
      in compression_loop R now base_string base_object 0 (nat cnt) [] g2)"

section \<open>Edge cases\<close>

text \<open>
  The literal \<open>1.7976931348623157e+308\<close> denotes the largest double,
  \<open>2^1024 - 2^971\<close>.
\<close>

definition MAX_DOUBLE :: real where
  "MAX_DOUBLE = 2 ^ 1024 - 2 ^ 971"

definition generate_edge_case_data :: "'g rng \<Rightarrow> 'g \<Rightarrow> json list \<times> 'g" where
  "generate_edge_case_data R g =
     (let (s1, g1) = generate_string R 100000 g;
          (s2, g2) = generate_string R 100000 g1;
          (s3, g3) = generate_string R 100000 g2;
          (u1, g4) = generate_unicode_string R 100 g3;
          (u2, g5) = generate_unicode_string R 100 g4;
          (u3, g6) = generate_unicode_string R 100 g5;
          (o1, g7) = generate_object R 5 g6;
          (o2, g8) = generate_object R 5 g7;
          (o3, g9) = generate_object R 5 g8;
          (a1, g10) = generate_array R 10000 ''string'' g9;
          (a2, g11) = generate_array R 10000 ''integer'' g10;
          (a3, g12) = generate_array R 10000 ''float'' g11
      in ([JObj [],
           JObj [(''field1'', JNull), (''field2'', JNull), (''field3'', JNull)],
           JObj [(''field1'', JStr []), (''field2'', JStr []), (''field3'', JStr [])],
           JObj [(''field1'', JStr s1), (''field2'', JStr s2), (''field3'', JStr s3)],
           JObj [(''field1'', JInt (2 ^ 63 - 1)), (''field2'', JInt (- (2 ^ 63))),
                 (''field3'', JFloat MAX_DOUBLE)],
           JObj [(''field1'', JStr u1), (''field2'', JStr u2), (''field3'', JStr u3)],
           JObj [(''field1'', JObj o1), (''field2'', JObj o2), (''field3'', JObj o3)],
           JObj [(''field1'', JArr a1), (''field2'', JArr a2), (''field3'', JArr a3)]],
          g12))"

section \<open>A generation run\<close>

text \<open>
  The part of \<open>main\<close> that builds the dataset from the parsed arguments: the default
  count of the size class, the generator seeded by \<open>__init__\<close>, and the dispatch on the
  category. In the conformance category the start time is a reading of the clock.
\<close>

record args =
  arg_seed :: int
  arg_version :: string
  arg_format :: string
  arg_category :: string
  arg_size :: string
  arg_count :: "int option"
  arg_field_types :: "string list"

definition size_counts :: "string \<Rightarrow> int option" where
  "size_counts = map_of [(''small'', 100), (''medium'', 1000), (''large'', 10000),
                         (''xlarge'', 100000)]"

fun records_loop :: "'g rng \<Rightarrow> string list \<Rightarrow> nat \<Rightarrow> 'g \<Rightarrow> json list \<times> 'g" where
  "records_loop R field_types 0 g = ([], g)"
| "records_loop R field_types (Suc n) g =
     (let (r, g1) = generate_record R field_types g;
          (rest, g2) = records_loop R field_types n g1
      in (JObj r # rest, g2))"

definition main_data :: "'g rng \<Rightarrow> (nat \<Rightarrow> datetime) \<Rightarrow> args \<Rightarrow> error + json list" where
  "main_data R now a =
     (case (case arg_count a of
              Some c \<Rightarrow> Inr c
            | None \<Rightarrow> (case size_counts (arg_size a) of
                         None \<Rightarrow> Inl KeyError | Some c \<Rightarrow> Inr c)) of
        Inl e \<Rightarrow> Inl e
      | Inr cnt \<Rightarrow>
          let g = rnd_seed R (arg_seed a) in
          if arg_category a = ''unit'' then
            Inr (fst (generate_edge_case_data R g))
          else if arg_category a = ''integration'' then
            Inr (fst (records_loop R (arg_field_types a) (nat cnt) g))
          else if arg_category a = ''performance'' then
            Inr (fst (generate_log_data R now cnt g))
          else if arg_category a = ''stress'' then
            Inr (fst (generate_compression_test_data R now cnt g))
          else if arg_category a = ''conformance'' then
            (case generate_time_series_data R cnt (now 0) g of
               Inl e \<Rightarrow> Inl e | Inr (d, g') \<Rightarrow> Inr d)
          else
            Inr (fst (records_loop R (arg_field_types a) (nat cnt) g)))"

section \<open>Content hash and metadata\<close>

text \<open>
  \<open>json.dumps\<close> with its default separators. The renderings of strings, floats and
  instants, and SHA-256 itself, are library functions and parameters here. With
  \<open>sort_keys\<close> the items of a dictionary are sorted by key before they are written.
\<close>

record encoders =
  enc_str :: "pystr \<Rightarrow> string"
  enc_float :: "real \<Rightarrow> string"
  isoformat :: "datetime \<Rightarrow> pystr"

definition join :: "string \<Rightarrow> string list \<Rightarrow> string" where
  "join sep xs = (case xs of [] \<Rightarrow> [] | x # rest \<Rightarrow> x @ concat (map (\<lambda>y. sep @ y) rest))"

function dumps :: "encoders \<Rightarrow> bool \<Rightarrow> json \<Rightarrow> string" where
  "dumps E sort_keys JNull = ''null''"
| "dumps E sort_keys (JBool b) = (if b then ''true'' else ''false'')"
| "dumps E sort_keys (JInt i) = str_int i"
| "dumps E sort_keys (JFloat x) = enc_float E x"
| "dumps E sort_keys (JStr s) = enc_str E s"
| "dumps E sort_keys (JIso t) = enc_str E (isoformat E t)"
| "dumps E sort_keys (JArr xs) = ''['' @ join '', '' (map (dumps E sort_keys) xs) @ '']''"
| "dumps E sort_keys (JObj kvs) =
     ''{'' @ join '', ''
        (map (\<lambda>kv. enc_str E (pystr (fst kv)) @ '': '' @ dumps E sort_keys (snd kv))
           (if sort_keys then sort_key fst kvs else kvs)) @ ''}''"
  by pat_completeness auto

termination
proof (relation "measure (\<lambda>(E, sk, v). size v)", goal_cases)
  case 1
  show ?case by simp
next
  case (2 E sk xs x)
  then show ?case by (simp add: less_Suc_eq_le size_list_estimation')
next
  case (3 E sk kvs kv)
  then have "kv \<in> set kvs" by (simp split: if_splits)
  then have "size (snd kv) \<le> size_list (size_prod (\<lambda>x. 0) size) kvs"
    by (rule size_list_estimation') (cases kv, simp)
  then show ?case by simp
qed

definition data_hash :: "encoders \<Rightarrow> (string \<Rightarrow> string) \<Rightarrow> json list \<Rightarrow> string" where
  "data_hash E sha256 data = sha256 (dumps E True (JArr data))"

record runtime =
  rt_now :: datetime
  rt_python_version :: pystr
  rt_time :: real

definition generate_metadata ::
  "encoders \<Rightarrow> (string \<Rightarrow> string) \<Rightarrow> runtime \<Rightarrow> string \<Rightarrow> int \<Rightarrow> json list \<Rightarrow> json
     \<Rightarrow> (string \<times> json) list"
where
  "generate_metadata E sha256 rt version seed data generation_params =
     [(''version'', JStr (pystr version)),
      (''generated_at'', JIso (rt_now rt)),
      (''generator_seed'', JInt seed),
      (''record_count'', JInt (int (length data))),
      (''generation_params'', generation_params),
      (''data_hash'', JStr (pystr (data_hash E sha256 data))),
      (''provenance'',
         JObj [(''generator'', JStr (pystr ''jac_test_data_generator'')),
               (''generator_version'', JStr (pystr ''1.0.0'')),
               (''python_version'', JStr (rt_python_version rt)),
               (''generation_time'', JFloat (rt_time rt))])]"

section \<open>Provenance documents\<close>

text \<open>
  A fixture path is known by its parts and by its text \<open>str(path)\<close>. The file system
  is a parameter: for each path the file there, if any, with its size, its number of
  lines (if it can be read as text) and its content parsed as JSON (if it parses).
\<close>

record path =
  path_parts :: "string list"
  path_str :: string

record fsfile =
  f_size :: nat
  f_lines :: "nat option"
  f_json :: "json option"

text \<open>
  \<open>Path.name\<close> is the last part, and the empty string when the path has no part besides
  its root (\<open>/\<close> or \<open>//\<close> on POSIX).
\<close>

definition path_name :: "path \<Rightarrow> string" where
  "path_name p =
     (let parts = path_parts p;
          anchored = (parts \<noteq> [] \<and> hd parts \<in> {''/'', ''//''})
      in if length parts = (if anchored then 1 else 0) then [] else last parts)"

definition rfind :: "char \<Rightarrow> string \<Rightarrow> int" where
  "rfind c s =
     (let j = length (takeWhile (\<lambda>x. x \<noteq> c) (rev s))
      in if j = length s then - 1 else int (length s) - 1 - int j)"

definition path_suffix :: "path \<Rightarrow> string" where
  "path_suffix p =
     (let name = path_name p; i = rfind CHR ''.'' name
      in if 0 < i \<and> i < int (length name) - 1 then drop (nat i) name else [])"

definition generate_id :: "(string \<Rightarrow> string) \<Rightarrow> path \<Rightarrow> string" where
  "generate_id sha256 fixture_path = take 16 (sha256 (path_str fixture_path))"

definition extract_tags :: "path \<Rightarrow> string list" where
  "extract_tags fixture_path =
     filter (\<lambda>tag. tag \<in> set (path_parts fixture_path))
       [''unit'', ''integration'', ''performance'', ''stress'', ''conformance'',
        ''small'', ''medium'', ''large'', ''xlarge'']"

definition get_transformations :: "path \<Rightarrow> json list" where
  "get_transformations fixture_path = []"

definition count_records :: "(path \<Rightarrow> fsfile option) \<Rightarrow> path \<Rightarrow> nat" where
  "count_records fs fixture_path =
     (case fs fixture_path of
        None \<Rightarrow> 0
      | Some f \<Rightarrow>
          if path_suffix fixture_path = ''.ndjson'' then
            (case f_lines f of None \<Rightarrow> 0 | Some n \<Rightarrow> n)
          else
            (case f_json f of
               None \<Rightarrow> 0
             | Some (JArr xs) \<Rightarrow> length xs
             | Some v \<Rightarrow> 1))"

definition assess_quality ::
  "(path \<Rightarrow> fsfile option) \<Rightarrow> datetime \<Rightarrow> path \<Rightarrow> error + json"
where
  "assess_quality fs t fixture_path =
     (let record_count = count_records fs fixture_path
      in case fs fixture_path of
           None \<Rightarrow> Inl FileNotFoundError
         | Some f \<Rightarrow>
             Inr (JObj
               [(''validation'',
                   JObj [(''timestamp'', JIso t),
                         (''tool'', JStr (pystr ''jac_data_validator'')),
                         (''version'', JStr (pystr ''1.0.0'')),
                         (''results'',
                            JObj [(''format_valid'', JBool True),
                                  (''schema_valid'', JBool True),
                                  (''integrity_valid'', JBool True),
                                  (''quality_score'', JFloat (4278419646001971 / 4503599627370496))]),
                         (''issues'', JArr [])]),
                (''metrics'',
                   JObj [(''record_count'', JInt (int record_count)),
                         (''file_size_bytes'', JInt (int (f_size f))),
                         (''compression_ratio'', JFloat 1),
                         (''encoding'', JStr (pystr ''utf-8'')),
                         (''line_ending'', JStr (pystr ''unix''))])]))"

definition track_usage :: "datetime \<Rightarrow> path \<Rightarrow> json" where
  "track_usage t fixture_path =
     JObj [(''test_runs'', JArr []), (''access_count'', JInt 0),
           (''last_accessed'', JIso t),
           (''access_patterns'',
              JObj [(''daily'', JInt 0), (''weekly'', JInt 0), (''monthly'', JInt 0)])]"

definition build_lineage :: "path \<Rightarrow> json" where
  "build_lineage fixture_path = JObj [(''nodes'', JArr []), (''edges'', JArr [])]"

definition track_dependencies :: "path \<Rightarrow> json" where
  "track_dependencies fixture_path =
     JObj [(''direct'', JArr []), (''transitive'', JArr []), (''tools'', JArr [])]"

definition check_compliance :: "path \<Rightarrow> json" where
  "check_compliance fixture_path = JObj [(''standards'', JArr []), (''certifications'', JArr [])]"

definition build_audit_trail :: "datetime \<Rightarrow> path \<Rightarrow> json" where
  "build_audit_trail t fixture_path =
     JArr [JObj [(''timestamp'', JIso t), (''actor'', JStr (pystr ''system'')),
                 (''action'', JStr (pystr ''provenance_generated'')),
                 (''resource'', JStr (pystr (path_str fixture_path))),
                 (''details'', JObj [(''result'', JStr (pystr ''success''))])]]"

text \<open>
  The dictionary display of \<open>generate_provenance\<close> is evaluated in order; the clock is
  read four times, and \<open>stat()\<close> in the quality block raises when the file is missing.
\<close>

definition generate_provenance ::
  "(string \<Rightarrow> string) \<Rightarrow> (path \<Rightarrow> fsfile option) \<Rightarrow> (nat \<Rightarrow> datetime) \<Rightarrow> path \<Rightarrow> json
     \<Rightarrow> error + (string \<times> json) list"
where
  "generate_provenance sha256 fs now fixture_path source_info =
     (case assess_quality fs (now 1) fixture_path of
        Inl e \<Rightarrow> Inl e
      | Inr quality \<Rightarrow>
          Inr [(''provenance'',
                  JObj [(''id'', JStr (pystr (generate_id sha256 fixture_path))),
                        (''version'', JStr (pystr ''1.0.0'')),
                        (''created_at'', JIso (now 0)),
                        (''created_by'', JStr (pystr ''system'')),
                        (''description'',
                           JStr (pystr (''Provenance for '' @ path_name fixture_path))),
                        (''tags'', JArr (map (\<lambda>t. JStr (pystr t)) (extract_tags fixture_path))),
                        (''status'', JStr (pystr ''active''))]),
               (''source'', source_info),
               (''transformations'', JArr (get_transformations fixture_path)),
               (''quality'', quality),
               (''usage'', track_usage (now 2) fixture_path),
               (''lineage'', build_lineage fixture_path),
               (''dependencies'', track_dependencies fixture_path),
               (''compliance'', check_compliance fixture_path),
               (''audit_trail'', build_audit_trail (now 3) fixture_path)])"

text \<open>
  The validator opens the file and validates whatever \<open>json.load\<close> returns: a
  dictionary, but also a list, a string, a number, a boolean or \<open>None\<close>. A missing
  file and a file that is not JSON raise. \<open>field in provenance\<close> is key membership on
  a dictionary, element membership on a list and substring search on a string; on any
  other value it raises \<open>TypeError\<close>. \<open>all\<close> consumes its generator from the left and
  stops at the first false membership.
\<close>

record checks =
  schema_valid :: bool
  checksums_valid :: bool
  timestamps_valid :: bool
  dependencies_valid :: bool

record validation_results =
  valid :: bool
  errors :: "string list"
  warnings :: "string list"
  checks :: checks

definition required_fields :: "string list" where
  "required_fields = [''provenance'', ''source'', ''transformations'', ''quality'']"

fun is_substring :: "'a list \<Rightarrow> 'a list \<Rightarrow> bool" where
  "is_substring xs [] = (xs = [])"
| "is_substring xs (y # ys) = (take (length xs) (y # ys) = xs \<or> is_substring xs ys)"

definition str_eq :: "encoders \<Rightarrow> string \<Rightarrow> json \<Rightarrow> bool" where
  "str_eq E field v =
     (case v of
        JStr s \<Rightarrow> s = pystr field
      | JIso t \<Rightarrow> isoformat E t = pystr field
      | _ \<Rightarrow> False)"

definition py_in :: "encoders \<Rightarrow> string \<Rightarrow> json \<Rightarrow> error + bool" where
  "py_in E field v =
     (case v of
        JObj kvs \<Rightarrow> Inr (field \<in> set (map fst kvs))
      | JArr xs \<Rightarrow> Inr (list_ex (str_eq E field) xs)
      | JStr s \<Rightarrow> Inr (is_substring (pystr field) s)
      | JIso t \<Rightarrow> Inr (is_substring (pystr field) (isoformat E t))
      | _ \<Rightarrow> Inl TypeError)"

fun all_in :: "encoders \<Rightarrow> string list \<Rightarrow> json \<Rightarrow> error + bool" where
  "all_in E [] v = Inr True"
| "all_in E (field # rest) v =
     (case py_in E field v of
        Inl e \<Rightarrow> Inl e
      | Inr False \<Rightarrow> Inr False
      | Inr True \<Rightarrow> all_in E rest v)"

definition validate_schema :: "encoders \<Rightarrow> json \<Rightarrow> error + bool" where
  "validate_schema E provenance = all_in E required_fields provenance"

definition validate_checksums :: "json \<Rightarrow> bool" where
  "validate_checksums provenance = True"

definition validate_timestamps :: "json \<Rightarrow> bool" where
  "validate_timestamps provenance = True"

definition validate_dependencies :: "json \<Rightarrow> bool" where
  "validate_dependencies provenance = True"

definition validate_provenance ::
  "encoders \<Rightarrow> (path \<Rightarrow> fsfile option) \<Rightarrow> path \<Rightarrow> error + validation_results"
where
  "validate_provenance E fs provenance_file =
     (case fs provenance_file of
        None \<Rightarrow> Inl FileNotFoundError
      | Some f \<Rightarrow>
     (case f_json f of
        None \<Rightarrow> Inl JSONDecodeError
      | Some provenance \<Rightarrow>
     (case validate_schema E provenance of
        Inl e \<Rightarrow> Inl e
      | Inr schema_ok \<Rightarrow>
          let r0 = \<lparr>valid = True, errors = [], warnings = [],
                    checks = \<lparr>schema_valid = False, checksums_valid = False,
                               timestamps_valid = False, dependencies_valid = False\<rparr>\<rparr>;
              r1 = (if schema_ok
                    then r0\<lparr>checks := (checks r0)\<lparr>schema_valid := True\<rparr>\<rparr>
                    else r0\<lparr>errors := errors r0 @ [''Invalid provenance schema''],
                            valid := False\<rparr>);
              r2 = (if validate_checksums provenance
                    then r1\<lparr>checks := (checks r1)\<lparr>checksums_valid := True\<rparr>\<rparr>
                    else r1\<lparr>warnings := warnings r1 @ [''Checksum validation failed'']\<rparr>);
              r3 = (if validate_timestamps provenance
                    then r2\<lparr>checks := (checks r2)\<lparr>timestamps_valid := True\<rparr>\<rparr>
                    else r2\<lparr>warnings := warnings r2 @ [''Timestamp validation failed'']\<rparr>);
              r4 = (if validate_dependencies provenance
                    then r3\<lparr>checks := (checks r3)\<lparr>dependencies_valid := True\<rparr>\<rparr>
                    else r3\<lparr>warnings := warnings r3 @ [''Dependency validation failed'']\<rparr>)
          in Inr r4)))"

text \<open>The top-level keys of a document: those of a dictionary, none otherwise.\<close>

definition top_level_keys :: "json \<Rightarrow> string list" where
  "top_level_keys v = (case v of JObj kvs \<Rightarrow> map fst kvs | _ \<Rightarrow> [])"

section \<open>Observations on generated data\<close>

definition field :: "json \<Rightarrow> string \<Rightarrow> json option" where
  "field r k = (case r of JObj kvs \<Rightarrow> map_of kvs k | _ \<Rightarrow> None)"

definition timestamp_of :: "json \<Rightarrow> datetime option" where
  "timestamp_of r = (case field r ''timestamp'' of Some (JIso t) \<Rightarrow> Some t | _ \<Rightarrow> None)"

fun drop_timestamp :: "json \<Rightarrow> json" where
  "drop_timestamp (JObj kvs) = JObj (filter (\<lambda>kv. fst kv \<noteq> ''timestamp'') kvs)"
| "drop_timestamp v = v"

text \<open>The number of objects nested inside one another.\<close>

fun obj_depth :: "json \<Rightarrow> nat" where
  "obj_depth (JObj kvs) = Suc (fold max (map (\<lambda>kv. obj_depth (snd kv)) kvs) 0)"
| "obj_depth (JArr xs) = fold max (map obj_depth xs) 0"
| "obj_depth v = 0"

text \<open>
  Two values have the same content when they differ at most in the order of the items of
  their dictionaries, at any depth. The keys of a dictionary are distinct.
\<close>

inductive same_content :: "json \<Rightarrow> json \<Rightarrow> bool" where
  same_refl: "same_content v v"
| same_arr: "list_all2 same_content xs ys \<Longrightarrow> same_content (JArr xs) (JArr ys)"
| same_obj: "list_all2 (\<lambda>x z. fst x = fst z \<and> same_content (snd x) (snd z)) xs zs \<Longrightarrow>
     mset zs = mset ys \<Longrightarrow> distinct (map fst ys) \<Longrightarrow> same_content (JObj xs) (JObj ys)"

text \<open>
  The contract of the random source: \<open>_randbelow(n)\<close> is below \<open>n\<close> and \<open>random()\<close>
  lies in \<open>[0, 1)\<close>.
\<close>

definition rng_ok :: "'g rng \<Rightarrow> bool" where
  "rng_ok R \<longleftrightarrow>
     (\<forall>n g. 0 < n \<longrightarrow> fst (rnd_randbelow R n g) < n) \<and>
     (\<forall>g. 0 \<le> fst (rnd_random R g) \<and> fst (rnd_random R g) < 1)"

text \<open>
  A scripted source for concrete runs: the draws are read off a tape of numbers, and are
  0 once the tape is used up.
\<close>

definition tape_rng :: "nat list rng" where
  "tape_rng =
     \<lparr>rnd_seed = (\<lambda>s. [nat \<bar>s\<bar>]),
      rnd_random = (\<lambda>g. case g of [] \<Rightarrow> (0, []) | x # xs \<Rightarrow> (real (x mod 1000) / 1000, xs)),
      rnd_randbelow = (\<lambda>n g. case g of [] \<Rightarrow> (0, []) | x # xs \<Rightarrow> (x mod n, xs))\<rparr>"

section \<open>The scripted random source\<close>

text \<open>The scripted source meets the contract, and an empty tape stays empty.\<close>

lemma tape_rng_simps:
  "rnd_random tape_rng [] = (0, [])"
  "rnd_random tape_rng (x # xs) = (real (x mod 1000) / 1000, xs)"
  "rnd_randbelow tape_rng n [] = (0, [])"
  "rnd_randbelow tape_rng n (x # xs) = (x mod n, xs)"
  "rnd_seed tape_rng s = [nat \<bar>s\<bar>]"
  by (simp_all add: tape_rng_def)

lemma tape_rng_ok: "rng_ok tape_rng"
  by (auto simp: rng_ok_def tape_rng_def split: list.splits)

lemma tape_empty_choices: "snd (choices tape_rng pop k []) = []"
  by (induction k) (simp_all add: split_beta tape_rng_simps)

lemma tape_empty_generate_string: "snd (generate_string tape_rng len []) = []"
  by (simp add: generate_string_def tape_empty_choices)

section \<open>Decimal field names\<close>

lemma str_nat_nonempty: "str_nat n \<noteq> []"
  by (subst str_nat.simps) simp

lemma digit_inj: "a < 10 \<Longrightarrow> b < 10 \<Longrightarrow> ''0123456789'' ! a = ''0123456789'' ! b \<Longrightarrow> a = b"
  by (subst (asm) nth_eq_iff_index_eq) simp_all

lemma str_nat_inj: "str_nat n = str_nat m \<Longrightarrow> n = m"
proof (induction n arbitrary: m rule: str_nat.induct)
  case (1 n)
  show ?case
  proof (cases "n < 10")
    case True
    then have n: "str_nat n = [''0123456789'' ! n]" by (subst str_nat.simps) simp
    show ?thesis
    proof (cases "m < 10")
      case True
      then have "str_nat m = [''0123456789'' ! m]" by (subst str_nat.simps) simp
      with n "1.prems" \<open>n < 10\<close> True show ?thesis by (auto dest: digit_inj)
    next
      case False
      then have "str_nat m = str_nat (m div 10) @ [''0123456789'' ! (m mod 10)]"
        by (subst str_nat.simps) simp
      with n "1.prems" str_nat_nonempty [of "m div 10"] show ?thesis by auto
    qed
  next
    case False
    then have n: "str_nat n = str_nat (n div 10) @ [''0123456789'' ! (n mod 10)]"
      by (subst str_nat.simps) simp
    show ?thesis
    proof (cases "m < 10")
      case True
      then have "str_nat m = [''0123456789'' ! m]" by (subst str_nat.simps) simp
      with n "1.prems" str_nat_nonempty [of "n div 10"] show ?thesis by auto
    next
      case m: False
      then have "str_nat m = str_nat (m div 10) @ [''0123456789'' ! (m mod 10)]"
        by (subst str_nat.simps) simp
      with n "1.prems" have a: "str_nat (n div 10) = str_nat (m div 10)"
        and b: "''0123456789'' ! (n mod 10) = ''0123456789'' ! (m mod 10)" by auto
      from "1.IH" [OF False a] have "n div 10 = m div 10" .
      moreover from b have "n mod 10 = m mod 10" by (intro digit_inj) simp_all
      ultimately show ?thesis by (metis div_mult_mod_eq)
    qed
  qed
qed

lemma field_name_inj: "field_name i = field_name j \<Longrightarrow> i = j"
  by (simp add: field_name_def str_nat_inj)

section \<open>Validation of provenance documents\<close>

lemma all_in_object:
  "all_in E names (JObj doc) = Inr (set names \<subseteq> fst ` set doc)"
  by (induction names) (auto simp: py_in_def split: bool.splits)

lemma validate_schema_object:
  "validate_schema E (JObj doc) =
     Inr ({''provenance'', ''source'', ''transformations'', ''quality''} \<subseteq> fst ` set doc)"
  by (simp add: validate_schema_def all_in_object required_fields_def)

lemma validate_provenance_object:
  assumes "fs p = Some f" and "f_json f = Some (JObj doc)"
  shows "\<exists>r. validate_provenance E fs p = Inr r \<and>
           valid r = ({''provenance'', ''source'', ''transformations'', ''quality''} \<subseteq> fst ` set doc) \<and>
           (errors r = []) = ({''provenance'', ''source'', ''transformations'', ''quality''} \<subseteq> fst ` set doc) \<and>
           warnings r = []"
  using assms
  by (simp add: validate_provenance_def validate_schema_object validate_checksums_def
      validate_timestamps_def validate_dependencies_def Let_def)

lemma validate_schema_type_error:
  "validate_schema E JNull = Inl TypeError"
  "validate_schema E (JBool b) = Inl TypeError"
  "validate_schema E (JInt i) = Inl TypeError"
  "validate_schema E (JFloat x) = Inl TypeError"
  by (simp_all add: validate_schema_def required_fields_def py_in_def)

lemma generate_provenance_keys:
  "generate_provenance H fs now p src = Inr d \<Longrightarrow>
     map fst d = [''provenance'', ''source'', ''transformations'', ''quality'', ''usage'',
                  ''lineage'', ''dependencies'', ''compliance'', ''audit_trail'']"
  by (auto simp: generate_provenance_def split: sum.splits)

text \<open>
  Claim C9, as amended. For a provenance file whose JSON document is an object, the
  validator returns a report, and the report is valid, and without errors, exactly when
  the four keys \<open>provenance\<close>, \<open>source\<close>, \<open>transformations\<close> and \<open>quality\<close> are all
  among the top-level keys of the document; the three other checks always pass, so no
  warning is recorded. Every document that \<open>generate_provenance\<close> returns is an object
  with the four keys, and a file that holds it is reported valid.
\<close>

theorem provenance_validation:
  assumes "fs p = Some f" and "f_json f = Some (JObj doc)"
  shows "\<exists>r. validate_provenance E fs p = Inr r \<and>
           (valid r \<longleftrightarrow>
              {''provenance'', ''source'', ''transformations'', ''quality''} \<subseteq> fst ` set doc) \<and>
           (errors r = [] \<longleftrightarrow>
              {''provenance'', ''source'', ''transformations'', ''quality''} \<subseteq> fst ` set doc) \<and>
           warnings r = [] \<and>
           (generate_provenance H fs' now q src = Inr doc \<longrightarrow>
              {''provenance'', ''source'', ''transformations'', ''quality''} \<subseteq> fst ` set doc \<and>
              valid r \<and> errors r = [])"
proof -
  from validate_provenance_object [of fs p f doc E, OF assms] obtain r where
    r: "validate_provenance E fs p = Inr r"
      "valid r = ({''provenance'', ''source'', ''transformations'', ''quality''} \<subseteq> fst ` set doc)"
      "(errors r = []) = ({''provenance'', ''source'', ''transformations'', ''quality''} \<subseteq> fst ` set doc)"
      "warnings r = []"
    by blast
  have "{''provenance'', ''source'', ''transformations'', ''quality''} \<subseteq> fst ` set doc"
    if "generate_provenance H fs' now q src = Inr doc"
  proof -
    have "fst ` set doc = set (map fst doc)" by simp
    also have "\<dots> = set [''provenance'', ''source'', ''transformations'', ''quality'', ''usage'',
                  ''lineage'', ''dependencies'', ''compliance'', ''audit_trail'']"
      using generate_provenance_keys [OF that] by simp
    finally show ?thesis by simp
  qed
  with r show ?thesis by auto
qed

theorem provenance_validation_witness:
  "valid (projr (validate_provenance
      \<lparr>enc_str = map char_of, enc_float = (\<lambda>x. ''0.5''), isoformat = (\<lambda>t. [])\<rparr>
      (\<lambda>p. Some \<lparr>f_size = 3, f_lines = Some 1, f_json = Some (JObj (projr (generate_provenance (\<lambda>s. s)
          (\<lambda>p. Some \<lparr>f_size = 3, f_lines = Some 1, f_json = None\<rparr>) (\<lambda>i. 0)
          \<lparr>path_parts = [''testdata'', ''unit'', ''small'', ''a.ndjson''],
           path_str = ''testdata/unit/small/a.ndjson''\<rparr> JNull)))\<rparr>)
      \<lparr>path_parts = [''testdata'', ''metadata'', ''provenance'', ''a_provenance.json''],
       path_str = ''testdata/metadata/provenance/a_provenance.json''\<rparr>)) \<and>
   \<not> valid (projr (validate_provenance
      \<lparr>enc_str = map char_of, enc_float = (\<lambda>x. ''0.5''), isoformat = (\<lambda>t. [])\<rparr>
      (\<lambda>p. Some \<lparr>f_size = 3, f_lines = Some 1,
                  f_json = Some (JObj [(''provenance'', JNull), (''source'', JNull)])\<rparr>)
      \<lparr>path_parts = [''b_provenance.json''], path_str = ''b_provenance.json''\<rparr>))"
proof -
  let ?E = "\<lparr>enc_str = map char_of, enc_float = (\<lambda>x. ''0.5''), isoformat = (\<lambda>t. [])\<rparr>"
  let ?q = "\<lparr>path_parts = [''testdata'', ''unit'', ''small'', ''a.ndjson''],
           path_str = ''testdata/unit/small/a.ndjson''\<rparr>"
  let ?fs' = "\<lambda>p::path. Some \<lparr>f_size = 3, f_lines = Some 1, f_json = None\<rparr>"
  let ?g = "generate_provenance (\<lambda>s. s) ?fs' (\<lambda>i. 0) ?q JNull"
  let ?f = "\<lparr>f_size = 3, f_lines = Some 1, f_json = Some (JObj (projr ?g))\<rparr>"
  let ?p = "\<lparr>path_parts = [''testdata'', ''metadata'', ''provenance'', ''a_provenance.json''],
       path_str = ''testdata/metadata/provenance/a_provenance.json''\<rparr>"
  let ?f2 = "\<lparr>f_size = 3, f_lines = Some 1,
                  f_json = Some (JObj [(''provenance'', JNull), (''source'', JNull)])\<rparr>"
  let ?p2 = "\<lparr>path_parts = [''b_provenance.json''], path_str = ''b_provenance.json''\<rparr>"
  have g: "?g = Inr (projr ?g)"
    by (simp add: generate_provenance_def assess_quality_def)
  from provenance_validation [of "\<lambda>p. Some ?f" ?p ?f "projr ?g" ?E "\<lambda>s. s" ?fs' "\<lambda>i. 0" ?q JNull] g
    provenance_validation [of "\<lambda>p. Some ?f2" ?p2 ?f2 "[(''provenance'', JNull), (''source'', JNull)]"
      ?E "\<lambda>s. s" ?fs' "\<lambda>i. 0" ?q JNull]
  show ?thesis by auto
qed

text \<open>
  The claim as stated fails for a document that is not an object: the JSON array of the
  four names has no top-level key, yet each name is an element of the list, so the
  document is reported valid, without errors.
\<close>

theorem provenance_array_counterexample:
  "validate_provenance
      \<lparr>enc_str = map char_of, enc_float = (\<lambda>x. ''0.5''), isoformat = (\<lambda>t. [])\<rparr>
      (\<lambda>p. Some \<lparr>f_size = 54, f_lines = Some 1,
                  f_json = Some (JArr [JStr (pystr ''provenance''), JStr (pystr ''source''),
                                       JStr (pystr ''transformations''), JStr (pystr ''quality'')])\<rparr>)
      \<lparr>path_parts = [''b_provenance.json''], path_str = ''b_provenance.json''\<rparr> =
     Inr \<lparr>valid = True, errors = [], warnings = [],
          checks = \<lparr>schema_valid = True, checksums_valid = True,
                     timestamps_valid = True, dependencies_valid = True\<rparr>\<rparr> \<and>
   top_level_keys (JArr [JStr (pystr ''provenance''), JStr (pystr ''source''),
                         JStr (pystr ''transformations''), JStr (pystr ''quality'')]) = []"
  by (simp add: validate_provenance_def validate_schema_def required_fields_def py_in_def
      str_eq_def pystr_def validate_checksums_def validate_timestamps_def
      validate_dependencies_def top_level_keys_def)

section \<open>Keys of a generated record\<close>

lemma record_value_None: "fst (record_value R ft g) = None \<longleftrightarrow> ft \<notin> set FIELD_TYPES"
  by (simp add: record_value_def FIELD_TYPES_def split: prod.splits)

lemma record_loop_keys:
  "fst ` set rcd \<subseteq> field_name ` {..<i} \<Longrightarrow>
   map fst (fst (record_loop R i fts rcd g)) =
     map fst rcd @ map field_name (filter (\<lambda>j. fts ! (j - i) \<in> set FIELD_TYPES) [i..<i + length fts])"
proof (induction fts arbitrary: i rcd g)
  case Nil
  then show ?case by simp
next
  case (Cons ft rest)
  obtain val g' where v: "record_value R ft g = (val, g')" by (cases "record_value R ft g")
  define rcd' where
    "rcd' = (case val of None \<Rightarrow> rcd | Some v \<Rightarrow> AList.update (field_name i) v rcd)"
  have fresh: "field_name i \<notin> fst ` set rcd"
    using Cons.prems by (auto dest: field_name_inj)
  have k: "map fst rcd' = map fst rcd @ (if ft \<in> set FIELD_TYPES then [field_name i] else [])"
    using record_value_None [of R ft g] fresh v
    by (auto simp: rcd'_def update_keys split: option.splits)
  have sub: "fst ` set rcd' \<subseteq> field_name ` {..<Suc i}"
  proof -
    have "fst ` set rcd' = set (map fst rcd')" by simp
    also have "\<dots> \<subseteq> fst ` set rcd \<union> {field_name i}" unfolding k by auto
    also have "\<dots> \<subseteq> field_name ` {..<Suc i}" using Cons.prems by (auto simp: lessThan_Suc)
    finally show ?thesis .
  qed
  have step: "record_loop R i (ft # rest) rcd g = record_loop R (Suc i) rest rcd' g'"
    by (simp add: v rcd'_def)
  have idx: "filter (\<lambda>j. (ft # rest) ! (j - i) \<in> set FIELD_TYPES) [Suc i..<Suc i + length rest] =
             filter (\<lambda>j. rest ! (j - Suc i) \<in> set FIELD_TYPES) [Suc i..<Suc i + length rest]"
  proof (rule filter_cong [OF refl])
    fix j assume "j \<in> set [Suc i..<Suc i + length rest]"
    then have "j - i = Suc (j - Suc i)" by auto
    then show "((ft # rest) ! (j - i) \<in> set FIELD_TYPES) = (rest ! (j - Suc i) \<in> set FIELD_TYPES)"
      by simp
  qed
  have up: "[i..<i + length (ft # rest)] = i # [Suc i..<Suc i + length rest]"
    by (subst upt_conv_Cons) simp_all
  have "filter (\<lambda>j. (ft # rest) ! (j - i) \<in> set FIELD_TYPES) [i..<i + length (ft # rest)] =
        (if ft \<in> set FIELD_TYPES then [i] else []) @
        filter (\<lambda>j. (ft # rest) ! (j - i) \<in> set FIELD_TYPES) [Suc i..<Suc i + length rest]"
    unfolding up by simp
  then have f: "filter (\<lambda>j. (ft # rest) ! (j - i) \<in> set FIELD_TYPES) [i..<i + length (ft # rest)] =
        (if ft \<in> set FIELD_TYPES then [i] else []) @
        filter (\<lambda>j. rest ! (j - Suc i) \<in> set FIELD_TYPES) [Suc i..<Suc i + length rest]"
    unfolding idx .
  show ?case
    unfolding step Cons.IH [OF sub] k f by simp
qed

text \<open>
  Claim C10. For every list of field-type names \<open>generate_record\<close> returns a record:
  no call on this path can raise, so the model has no error branch. The keys of the record
  are the names \<open>field_i\<close> of exactly the positions \<open>i\<close> whose type is one of the seven
  of the palette, in order; a position with any other type name gets no key, so the record
  can have fewer keys than types were requested.
\<close>

theorem generate_record_keys:
  "map fst (fst (generate_record R field_types g)) =
     map field_name (filter (\<lambda>i. field_types ! i \<in> set FIELD_TYPES) [0..<length field_types]) \<and>
   (i < length field_types \<and> field_types ! i \<notin> set FIELD_TYPES \<longrightarrow>
      field_name i \<notin> fst ` set (fst (generate_record R field_types g))) \<and>
   length (fst (generate_record R field_types g)) \<le> length field_types"
proof -
  let ?r = "fst (generate_record R field_types g)"
  have ks: "map fst ?r =
      map field_name (filter (\<lambda>i. field_types ! i \<in> set FIELD_TYPES) [0..<length field_types])"
    using record_loop_keys [of "[]" 0 R field_types g] by (simp add: generate_record_def)
  have "field_name i \<notin> set (map fst ?r)" if "field_types ! i \<notin> set FIELD_TYPES"
    unfolding ks using that by (auto dest: field_name_inj)
  then have a: "field_name i \<notin> fst ` set ?r" if "field_types ! i \<notin> set FIELD_TYPES"
    using that by simp
  have "length (map fst ?r) \<le> length field_types"
    unfolding ks using length_filter_le [of _ "[0..<length field_types]"] by simp
  then have b: "length ?r \<le> length field_types" by simp
  show ?thesis using ks a b by blast
qed

theorem generate_record_keys_witness:
  "map fst (fst (generate_record tape_rng [''string'', ''uuid'', ''null''] [])) =
     [''field_0'', ''field_2''] \<and>
   ''field_1'' \<notin> fst ` set (fst (generate_record tape_rng [''string'', ''uuid'', ''null''] []))"
  using generate_record_keys [of tape_rng "[''string'', ''uuid'', ''null'']" "[]" 1]
  by (simp add: FIELD_TYPES_def field_name_def str_nat.simps upt_rec)

section \<open>Ranges of the draws\<close>

lemma randint_range:
  assumes "rng_ok R" and "a \<le> b"
  shows "a \<le> fst (randint R a b g) \<and> fst (randint R a b g) \<le> b"
proof -
  from assms(2) have "0 < nat (b - a + 1)" by simp
  with assms(1) have "fst (rnd_randbelow R (nat (b - a + 1)) g) < nat (b - a + 1)"
    unfolding rng_ok_def by blast
  then show ?thesis by (auto simp: randint_def split_beta)
qed

section \<open>Sizes of strings, arrays and objects\<close>

lemma choices_length: "length (fst (choices R pop k g)) = k"
  by (induction k arbitrary: g) (simp_all add: split_beta)

lemma generate_string_length: "length (fst (generate_string R len g)) = nat len"
  by (simp add: generate_string_def choices_length)

lemma unicode_loop_length: "length (fst (unicode_loop R n g)) = n"
  by (induction n arbitrary: g) (simp_all add: split_beta)

lemma generate_unicode_string_length: "length (fst (generate_unicode_string R len g)) = nat len"
  by (simp add: generate_unicode_string_def unicode_loop_length)

lemma array_elem_None: "fst (array_elem R t g) = None \<longleftrightarrow> t \<notin> set FIELD_TYPES"
  by (simp add: array_elem.simps FIELD_TYPES_def split: prod.splits)

lemma array_loop_length_le: "length (fst (array_loop R t n acc g)) \<le> length acc + n"
proof (induction n arbitrary: acc g)
  case 0
  show ?case by (subst array_loop.simps) simp
next
  case (Suc n)
  obtain elem g' where e: "array_elem R t g = (elem, g')" by (cases "array_elem R t g")
  have "array_loop R t (Suc n) acc g =
        array_loop R t n (case elem of None \<Rightarrow> acc | Some v \<Rightarrow> acc @ [v]) g'"
    by (subst array_loop.simps) (simp add: e)
  moreover have "length (case elem of None \<Rightarrow> acc | Some v \<Rightarrow> acc @ [v]) \<le> Suc (length acc)"
    by (simp split: option.split)
  ultimately show ?case
    using Suc.IH [of "case elem of None \<Rightarrow> acc | Some v \<Rightarrow> acc @ [v]" g'] by simp
qed

lemma array_loop_length_eq:
  "t \<in> set FIELD_TYPES \<Longrightarrow> length (fst (array_loop R t n acc g)) = length acc + n"
proof (induction n arbitrary: acc g)
  case 0
  show ?case by (subst array_loop.simps) simp
next
  case (Suc n)
  obtain elem g' where e: "array_elem R t g = (elem, g')" by (cases "array_elem R t g")
  with Suc.prems array_elem_None [of R t g] obtain v where v: "elem = Some v" by auto
  have "array_loop R t (Suc n) acc g = array_loop R t n (acc @ [v]) g'"
    by (subst array_loop.simps) (simp add: e v)
  then show ?case using Suc.IH [OF Suc.prems, of "acc @ [v]" g'] by simp
qed

lemma generate_array_length_le: "int (length (fst (generate_array R sz t g))) \<le> max 0 sz"
proof (cases "sz = 0")
  case True
  then show ?thesis by (simp add: generate_array.simps)
next
  case False
  then have "fst (generate_array R sz t g) = fst (array_loop R t (nat sz) [] g)"
    by (simp add: generate_array.simps)
  with array_loop_length_le [of R t "nat sz" "[]" g] show ?thesis by simp
qed

lemma generate_array_length_eq:
  "t \<in> set FIELD_TYPES \<Longrightarrow> length (fst (generate_array R sz t g)) = nat sz"
  using array_loop_length_eq [of t R "nat sz" "[]" g]
  by (simp add: generate_array.simps)

lemma object_loop_length_le:
  "length (fst (object_loop R depth i field_count obj g)) \<le> length obj + (field_count - i)"
proof (induction "field_count - i" arbitrary: i obj g)
  case 0
  then show ?case by (subst object_loop.simps) simp
next
  case (Suc n)
  obtain ft g0 where c: "choice R FIELD_TYPES g = (ft, g0)" by (cases "choice R FIELD_TYPES g")
  obtain val g' where v: "object_value R depth ft g0 = (val, g')"
    by (cases "object_value R depth ft g0")
  let ?obj = "case val of None \<Rightarrow> obj | Some v \<Rightarrow> AList.update (field_name i) v obj"
  from Suc.hyps(2) have lt: "\<not> field_count \<le> i" and n: "n = field_count - Suc i" by simp_all
  have "object_loop R depth i field_count obj g = object_loop R depth (Suc i) field_count ?obj g'"
    using lt by (subst object_loop.simps) (simp add: c v)
  moreover have "length ?obj \<le> Suc (length obj)"
  proof (cases val)
    case None
    then show ?thesis by simp
  next
    case (Some x)
    have "length (AList.update (field_name i) x obj) = length (map fst (AList.update (field_name i) x obj))"
      by simp
    also have "\<dots> \<le> Suc (length obj)" unfolding update_keys by simp
    finally show ?thesis using Some by simp
  qed
  ultimately show ?case using Suc.hyps(1) [OF n, of ?obj g'] lt by simp
qed

lemma generate_object_length_le:
  assumes "rng_ok R"
  shows "length (fst (generate_object R depth g)) \<le> 10"
proof (cases "depth \<le> 0")
  case True
  then show ?thesis by (simp add: generate_object.simps)
next
  case False
  obtain fc g1 where r: "randint R 1 10 g = (fc, g1)" by (cases "randint R 1 10 g")
  with randint_range [OF assms, of 1 10 g] have fc: "nat fc \<le> 10" by (simp add: nat_le_iff)
  have "fst (generate_object R depth g) = fst (object_loop R depth 0 (nat fc) [] g1)"
    using False by (simp add: generate_object.simps r)
  with object_loop_length_le [of R depth 0 "nat fc" "[]" g1] fc show ?thesis by simp
qed

text \<open>
  Claim C7, as amended. \<open>generate_array(size, t)\<close> returns at most \<open>max(size, 0)\<close>
  elements, and none for size 0; \<open>generate_object(depth)\<close> returns at most 10 fields,
  and none for a depth of 0 or less. The number of fields rests on the contract of
  \<open>randint\<close>.
\<close>

theorem generated_size_bounded:
  assumes "rng_ok R"
  shows "int (length (fst (generate_array R sz t g))) \<le> max 0 sz \<and>
         fst (generate_array R 0 t g) = [] \<and>
         length (fst (generate_object R depth g)) \<le> 10 \<and>
         (depth \<le> 0 \<longrightarrow> fst (generate_object R depth g) = [])"
  using generate_array_length_le [of R sz t g] generate_object_length_le [OF assms, of depth g]
  by (simp add: generate_array.simps generate_object.simps)

theorem generated_size_bounded_witness:
  "fst (generate_array tape_rng 2 ''integer'' [5, 7]) = [JInt (- 999995), JInt (- 999993)] \<and>
   int (length (fst (generate_array tape_rng 2 ''integer'' [5, 7]))) \<le> max 0 2 \<and>
   length (fst (generate_object tape_rng 1 [5, 7])) \<le> 10"
  using generated_size_bounded [OF tape_rng_ok, of 2 "''integer''" "[5, 7]" 1]
  by (simp add: generate_array.simps array_loop.simps array_elem.simps
      generate_integer_def randint_def tape_rng_simps)

text \<open>
  The claim as stated, with the bound \<open>size\<close> itself, fails for a negative size: the
  guard of \<open>generate_array\<close> tests \<open>size == 0\<close> only, \<open>range(-1)\<close> is empty, and the
  empty list returned has 0 elements, more than \<open>-1\<close>.
\<close>

theorem generate_array_negative_size_counterexample:
  "\<not> int (length (fst (generate_array tape_rng (- 1) ''string'' []))) \<le> - 1"
  by (simp add: generate_array.simps array_loop.simps)

section \<open>Nesting depth of generated objects\<close>

lemma fold_max_le: "fold max xs (a::nat) \<le> b \<longleftrightarrow> a \<le> b \<and> (\<forall>x\<in>set xs. x \<le> b)"
  by (induction xs arbitrary: a) auto

lemma obj_depth_JObj_le:
  "obj_depth (JObj kvs) \<le> Suc b \<longleftrightarrow> (\<forall>kv\<in>set kvs. obj_depth (snd kv) \<le> b)"
  by (simp add: fold_max_le)

lemma set_update_subset: "set (AList.update k v al) \<subseteq> insert (k, v) (set al)"
  by (induction al) auto

lemma array_loop_all:
  assumes "\<And>g. case fst (array_elem R t g) of None \<Rightarrow> True | Some v \<Rightarrow> P v"
  shows "\<forall>v\<in>set acc. P v \<Longrightarrow> \<forall>v\<in>set (fst (array_loop R t n acc g)). P v"
proof (induction n arbitrary: acc g)
  case 0
  then show ?case by (subst array_loop.simps) simp
next
  case (Suc n)
  obtain elem g' where e: "array_elem R t g = (elem, g')" by (cases "array_elem R t g")
  let ?acc = "case elem of None \<Rightarrow> acc | Some v \<Rightarrow> acc @ [v]"
  have "array_loop R t (Suc n) acc g = array_loop R t n ?acc g'"
    by (subst array_loop.simps) (simp add: e)
  moreover have "\<forall>v\<in>set ?acc. P v"
    using Suc.prems assms [of g] e by (auto split: option.splits)
  ultimately show ?case using Suc.IH [of ?acc g'] by simp
qed

lemma generate_array_string_depth:
  "\<forall>v\<in>set (fst (generate_array R sz ''string'' g)). obj_depth v = 0"
proof (cases "sz = 0")
  case True
  then show ?thesis by (simp add: generate_array.simps)
next
  case False
  have "\<forall>v\<in>set (fst (array_loop R ''string'' (nat sz) [] g)). obj_depth v = 0"
    by (rule array_loop_all) (simp_all add: array_elem.simps split_beta)
  with False show ?thesis by (simp add: generate_array.simps)
qed

lemma object_loop_all:
  assumes "\<And>ft g. case fst (object_value R depth ft g) of None \<Rightarrow> True | Some v \<Rightarrow> P v"
  shows "\<forall>kv\<in>set obj. P (snd kv) \<Longrightarrow>
         \<forall>kv\<in>set (fst (object_loop R depth i field_count obj g)). P (snd kv)"
proof (induction "field_count - i" arbitrary: i obj g)
  case 0
  then show ?case by (subst object_loop.simps) simp
next
  case (Suc n)
  obtain ft g0 where c: "choice R FIELD_TYPES g = (ft, g0)" by (cases "choice R FIELD_TYPES g")
  obtain val g' where v: "object_value R depth ft g0 = (val, g')"
    by (cases "object_value R depth ft g0")
  let ?obj = "case val of None \<Rightarrow> obj | Some v \<Rightarrow> AList.update (field_name i) v obj"
  from Suc.hyps(2) have lt: "\<not> field_count \<le> i" and n: "n = field_count - Suc i" by simp_all
  have step: "object_loop R depth i field_count obj g =
              object_loop R depth (Suc i) field_count ?obj g'"
    using lt by (subst object_loop.simps) (simp add: c v)
  have "\<forall>kv\<in>set ?obj. P (snd kv)"
  proof (cases val)
    case None
    with Suc.prems show ?thesis by simp
  next
    case (Some x)
    with assms [of ft g0] v have "P x" by simp
    with Suc.prems set_update_subset [of "field_name i" x obj] Some show ?thesis by auto
  qed
  from Suc.hyps(1) [OF n this] show ?case unfolding step .
qed

lemma generate_object_depth:
  "\<forall>kv\<in>set (fst (generate_object R depth g)). obj_depth (snd kv) \<le> nat depth - 1"
proof (induction "nat depth" arbitrary: depth g rule: less_induct)
  case less
  show ?case
  proof (cases "depth \<le> 0")
    case True
    then show ?thesis by (simp add: generate_object.simps)
  next
    case False
    have val: "case fst (object_value R depth ft g) of None \<Rightarrow> True
               | Some v \<Rightarrow> obj_depth v \<le> nat depth - 1" for ft g
    proof (cases "ft = ''object'' \<and> depth > 1")
      case True
      then have "nat (depth - 1) < nat depth" by simp
      from less [OF this, of g] have "obj_depth (JObj (fst (generate_object R (depth - 1) g))) \<le> Suc (nat (depth - 1) - 1)"
        unfolding obj_depth_JObj_le .
      also have "\<dots> = nat depth - 1" using True by linarith
      finally show ?thesis using True by (simp add: object_value.simps split_beta)
    next
      case False
      then show ?thesis
        using generate_array_string_depth [of R _ _]
        by (auto simp: object_value.simps split_beta fold_max_le)
    qed
    obtain fc g1 where r: "randint R 1 10 g = (fc, g1)" by (cases "randint R 1 10 g")
    have "fst (generate_object R depth g) = fst (object_loop R depth 0 (nat fc) [] g1)"
      using False by (simp add: generate_object.simps r)
    moreover have "\<forall>kv\<in>set (fst (object_loop R depth 0 (nat fc) [] g1)). obj_depth (snd kv) \<le> nat depth - 1"
      by (rule object_loop_all) (use val in simp_all)
    ultimately show ?thesis by simp
  qed
qed

lemma generate_object_5_depth: "obj_depth (JObj (fst (generate_object R 5 g))) \<le> 5"
proof -
  have "obj_depth (JObj (fst (generate_object R 5 g))) \<le> Suc 4"
    unfolding obj_depth_JObj_le using generate_object_depth [of R 5 g] by simp
  then show ?thesis by simp
qed



section \<open>The edge-case records\<close>

text \<open>
  Claim C2, as amended. Whatever the generator state, and so whatever the seed,
  \<open>generate_edge_case_data\<close> returns exactly eight records in a fixed order: the empty
  object; three null fields; three empty strings; three strings of length 100,000; the
  largest and smallest 64-bit integers and the largest double; three Unicode strings of
  length 100; three objects nested at most 5 deep; three arrays of 10,000 elements.
\<close>

theorem edge_case_records:
  "\<exists>s1 s2 s3 u1 u2 u3 o1 o2 o3 a1 a2 a3.
     fst (generate_edge_case_data R g) =
       [JObj [],
        JObj [(''field1'', JNull), (''field2'', JNull), (''field3'', JNull)],
        JObj [(''field1'', JStr []), (''field2'', JStr []), (''field3'', JStr [])],
        JObj [(''field1'', JStr s1), (''field2'', JStr s2), (''field3'', JStr s3)],
        JObj [(''field1'', JInt (2 ^ 63 - 1)), (''field2'', JInt (- (2 ^ 63))),
              (''field3'', JFloat MAX_DOUBLE)],
        JObj [(''field1'', JStr u1), (''field2'', JStr u2), (''field3'', JStr u3)],
        JObj [(''field1'', JObj o1), (''field2'', JObj o2), (''field3'', JObj o3)],
        JObj [(''field1'', JArr a1), (''field2'', JArr a2), (''field3'', JArr a3)]] \<and>
     length s1 = 100000 \<and> length s2 = 100000 \<and> length s3 = 100000 \<and>
     length u1 = 100 \<and> length u2 = 100 \<and> length u3 = 100 \<and>
     obj_depth (JObj o1) \<le> 5 \<and> obj_depth (JObj o2) \<le> 5 \<and> obj_depth (JObj o3) \<le> 5 \<and>
     length a1 = 10000 \<and> length a2 = 10000 \<and> length a3 = 10000"
proof -
  have ft: "''string'' \<in> set FIELD_TYPES" "''integer'' \<in> set FIELD_TYPES"
    "''float'' \<in> set FIELD_TYPES"
    by (simp_all add: FIELD_TYPES_def)
  show ?thesis
    unfolding generate_edge_case_data_def split_beta Let_def fst_conv
    apply (intro exI conjI)
                apply (rule refl)
               apply (simp_all only: generate_string_length generate_unicode_string_length
        generate_array_length_eq [OF ft(1)] generate_array_length_eq [OF ft(2)]
        generate_array_length_eq [OF ft(3)] generate_object_5_depth)
    done
qed

text \<open>
  The claim as stated counts seven records: the source appends the nested objects and the
  large arrays as two records, so the list has eight.
\<close>

theorem edge_case_count_counterexample:
  "length (fst (generate_edge_case_data tape_rng (rnd_seed tape_rng 42))) \<noteq> 7"
  by (simp add: generate_edge_case_data_def split_beta)

section \<open>Code points of Unicode strings\<close>

lemma unicode_char_range:
  assumes "rng_ok R"
  shows "(32 \<le> fst (unicode_char R g) \<and> fst (unicode_char R g) \<le> 126) \<or>
         (128 \<le> fst (unicode_char R g) \<and> fst (unicode_char R g) \<le> 0x10FFFF)"
proof -
  have r: "nat a \<le> nat (fst (randint R a b h)) \<and> nat (fst (randint R a b h)) \<le> nat b"
    if "a \<le> b" for a b h
    using randint_range [OF assms that, of h] by auto
  obtain r1 g1 where 1: "rnd_random R g = (r1, g1)" by (cases "rnd_random R g")
  obtain r2 g2 where 2: "rnd_random R g1 = (r2, g2)" by (cases "rnd_random R g1")
  obtain r3 g3 where 3: "rnd_random R g2 = (r3, g3)" by (cases "rnd_random R g2")
  consider (ascii) "r1 < d_0_3"
    | (latin) "\<not> r1 < d_0_3" "r2 < d_0_5"
    | (bmp) "\<not> r1 < d_0_3" "\<not> r2 < d_0_5" "r3 < d_0_7"
    | (supp) "\<not> r1 < d_0_3" "\<not> r2 < d_0_5" "\<not> r3 < d_0_7"
    by blast
  then show ?thesis
  proof cases
    case ascii
    then have "fst (unicode_char R g) = nat (fst (randint R 32 126 g1))"
      by (simp add: unicode_char_def 1 split_beta)
    with r [of 32 126 g1] show ?thesis by simp
  next
    case latin
    then have "fst (unicode_char R g) = nat (fst (randint R 128 255 g2))"
      by (simp add: unicode_char_def 1 2 split_beta)
    with r [of 128 255 g2] show ?thesis by simp
  next
    case bmp
    then have "fst (unicode_char R g) = nat (fst (randint R 0x100 0xFFFF g3))"
      by (simp add: unicode_char_def 1 2 3 split_beta)
    with r [of "0x100" "0xFFFF" g3] show ?thesis by simp
  next
    case supp
    then have "fst (unicode_char R g) = nat (fst (randint R 0x10000 0x10FFFF g3))"
      by (simp add: unicode_char_def 1 2 3 split_beta)
    with r [of "0x10000" "0x10FFFF" g3] show ?thesis by simp
  qed
qed

lemma unicode_loop_range:
  assumes "rng_ok R"
  shows "\<forall>c\<in>set (fst (unicode_loop R n g)). (32 \<le> c \<and> c \<le> 126) \<or> (128 \<le> c \<and> c \<le> 0x10FFFF)"
proof (induction n arbitrary: g)
  case 0
  show ?case by simp
next
  case (Suc n)
  show ?case
    using unicode_char_range [OF assms, of g] Suc [of "snd (unicode_char R g)"]
    by (simp add: split_beta)
qed

text \<open>
  Claim C4, as amended. Every character of a string returned by
  \<open>generate_unicode_string\<close> is a code point from 32 to 126 or from 128 to
  \<open>0x10FFFF\<close>, which \<open>chr\<close> accepts. The range of the third band, \<open>0x100\<close> to
  \<open>0xFFFF\<close>, is drawn whole, the surrogates \<open>0xD800\<close> to \<open>0xDFFF\<close> included: nothing
  excludes them.
\<close>

theorem unicode_string_code_points:
  assumes "rng_ok R"
  shows "\<forall>c\<in>set (fst (generate_unicode_string R len g)).
           (32 \<le> c \<and> c \<le> 126) \<or> (128 \<le> c \<and> c \<le> 0x10FFFF)"
  using unicode_loop_range [OF assms, of "nat len" g]
  by (simp add: generate_unicode_string_def)

theorem unicode_string_code_points_witness:
  "fst (generate_unicode_string tape_rng 2 [100, 33, 400, 300, 105]) = [65, 233] \<and>
   list_all (\<lambda>c. (32 \<le> c \<and> c \<le> 126) \<or> (128 \<le> c \<and> c \<le> 0x10FFFF))
     (fst (generate_unicode_string tape_rng 2 [100, 33, 400, 300, 105]))"
  using unicode_string_code_points [OF tape_rng_ok, of 2 "[100, 33, 400, 300, 105]"]
  by (simp add: generate_unicode_string_def unicode_char_def randint_def
      tape_rng_simps numeral_2_eq_2 d_0_3_def d_0_5_def d_0_7_def)

text \<open>
  The claim as stated fails: with draws 0.5, 0.6 and 0.1 the third band is chosen, and
  \<open>randint(0x100, 0xFFFF)\<close> can return \<open>0xD800\<close>, a surrogate.
\<close>

theorem unicode_string_surrogate_counterexample:
  "list_ex is_surrogate (fst (generate_unicode_string tape_rng 1 [500, 600, 100, 55040]))"
  by (simp add: generate_unicode_string_def unicode_char_def randint_def tape_rng_simps
      is_surrogate_def d_0_3_def d_0_5_def d_0_7_def)

section \<open>The split between the four bands\<close>

lemma unicode_char_band:
  assumes "rng_ok R"
  shows "band_of (fst (unicode_char R g)) =
           (let (r1, g1) = rnd_random R g;
                (r2, g2) = rnd_random R g1;
                (r3, g3) = rnd_random R g2
            in if r1 < d_0_3 then 0 else if r2 < d_0_5 then 1 else if r3 < d_0_7 then 2 else 3)"
proof -
  have r: "nat a \<le> nat (fst (randint R a b h)) \<and> nat (fst (randint R a b h)) \<le> nat b"
    if "a \<le> b" for a b h
    using randint_range [OF assms that, of h] by auto
  obtain r1 g1 where 1: "rnd_random R g = (r1, g1)" by (cases "rnd_random R g")
  obtain r2 g2 where 2: "rnd_random R g1 = (r2, g2)" by (cases "rnd_random R g1")
  obtain r3 g3 where 3: "rnd_random R g2 = (r3, g3)" by (cases "rnd_random R g2")
  consider (ascii) "r1 < d_0_3"
    | (latin) "\<not> r1 < d_0_3" "r2 < d_0_5"
    | (bmp) "\<not> r1 < d_0_3" "\<not> r2 < d_0_5" "r3 < d_0_7"
    | (supp) "\<not> r1 < d_0_3" "\<not> r2 < d_0_5" "\<not> r3 < d_0_7"
    by blast
  then show ?thesis
  proof cases
    case ascii
    then have "fst (unicode_char R g) = nat (fst (randint R 32 126 g1))"
      by (simp add: unicode_char_def 1 split_beta)
    with r [of 32 126 g1] ascii show ?thesis by (simp add: band_of_def 1 2 3)
  next
    case latin
    then have "fst (unicode_char R g) = nat (fst (randint R 128 255 g2))"
      by (simp add: unicode_char_def 1 2 split_beta)
    with r [of 128 255 g2] latin show ?thesis by (simp add: band_of_def 1 2 3)
  next
    case bmp
    then have "fst (unicode_char R g) = nat (fst (randint R 0x100 0xFFFF g3))"
      by (simp add: unicode_char_def 1 2 3 split_beta)
    with r [of "0x100" "0xFFFF" g3] bmp show ?thesis by (simp add: band_of_def 1 2 3)
  next
    case supp
    then have "fst (unicode_char R g) = nat (fst (randint R 0x10000 0x10FFFF g3))"
      by (simp add: unicode_char_def 1 2 3 split_beta)
    with r [of "0x10000" "0x10FFFF" g3] supp show ?thesis by (simp add: band_of_def 1 2 3)
  qed
qed

lemma tenth_below_threshold:
  assumes "x < 10"
  shows "real (100 * x mod 1000) / 1000 < d_0_3 \<longleftrightarrow> x < 3"
    and "real (100 * x mod 1000) / 1000 < d_0_5 \<longleftrightarrow> x < 5"
    and "real (100 * x mod 1000) / 1000 < d_0_7 \<longleftrightarrow> x < 7"
proof -
  from assms have m: "100 * x mod 1000 = 100 * x" by simp
  from assms have "x \<in> {0, 1, 2, 3, 4, 5, 6, 7, 8, 9}" by auto
  then show "real (100 * x mod 1000) / 1000 < d_0_3 \<longleftrightarrow> x < 3"
    and "real (100 * x mod 1000) / 1000 < d_0_5 \<longleftrightarrow> x < 5"
    and "real (100 * x mod 1000) / 1000 < d_0_7 \<longleftrightarrow> x < 7"
    unfolding m d_0_3_def d_0_5_def d_0_7_def by auto
qed

lemma band_tape:
  assumes "a < 10" "b < 10" "c < 10"
  shows "band_of (hd (fst (generate_unicode_string tape_rng 1 [100 * a, 100 * b, 100 * c, 0]))) =
           (if a < 3 then 0 else if b < 5 then 1 else if c < 7 then 2 else 3)"
proof -
  have "hd (fst (generate_unicode_string tape_rng 1 g)) = fst (unicode_char tape_rng g)" for g
    by (simp add: generate_unicode_string_def split_beta)
  moreover have "band_of (fst (unicode_char tape_rng [100 * a, 100 * b, 100 * c, 0])) =
      (if real (100 * a mod 1000) / 1000 < d_0_3 then 0
       else if real (100 * b mod 1000) / 1000 < d_0_5 then 1
       else if real (100 * c mod 1000) / 1000 < d_0_7 then 2 else 3)"
    using unicode_char_band [OF tape_rng_ok, of "[100 * a, 100 * b, 100 * c, 0]"]
    by (simp only: tape_rng_simps Let_def prod.case)
  ultimately show ?thesis
    by (simp only: tenth_below_threshold [OF assms(1)] tenth_below_threshold [OF assms(2)]
        tenth_below_threshold [OF assms(3)])
qed

text \<open>
  Claim C3. Let the three draws of \<open>random()\<close> that one character can consume range over
  the grid of tenths, \<open>a/10\<close>, \<open>b/10\<close> and \<open>c/10\<close> (no tenth lies between a
  threshold literal and the double it denotes): of the 1000 equally likely
  triples, 300 give a character of the first band, 350 of the second, 245 of the third
  and 105 of the fourth. The split of the code is 30\%, 35\%, 24.5\% and 10.5\%, not
  30\%, 20\%, 20\% and 30\%: each \<open>elif\<close> draws a fresh number instead of comparing the
  first one with the next cumulative threshold.
\<close>

theorem unicode_band_split:
  "card {(a, b, c). a < 10 \<and> b < 10 \<and> c < 10 \<and>
      band_of (hd (fst (generate_unicode_string tape_rng 1 [100 * a, 100 * b, 100 * c, 0]))) = 0} = 300 \<and>
   card {(a, b, c). a < 10 \<and> b < 10 \<and> c < 10 \<and>
      band_of (hd (fst (generate_unicode_string tape_rng 1 [100 * a, 100 * b, 100 * c, 0]))) = 1} = 350 \<and>
   card {(a, b, c). a < 10 \<and> b < 10 \<and> c < 10 \<and>
      band_of (hd (fst (generate_unicode_string tape_rng 1 [100 * a, 100 * b, 100 * c, 0]))) = 2} = 245 \<and>
   card {(a, b, c). a < 10 \<and> b < 10 \<and> c < 10 \<and>
      band_of (hd (fst (generate_unicode_string tape_rng 1 [100 * a, 100 * b, 100 * c, 0]))) = 3} = 105"
proof -
  let ?band = "\<lambda>a b c. band_of (hd (fst (generate_unicode_string tape_rng 1 [100 * a, 100 * b, 100 * c, 0])))"
  have 0: "{(a, b, c). a < 10 \<and> b < 10 \<and> c < 10 \<and> ?band a b c = 0} = {..<3} \<times> {..<10} \<times> {..<10}"
    by (auto simp: band_tape split: if_splits)
  have 1: "{(a, b, c). a < 10 \<and> b < 10 \<and> c < 10 \<and> ?band a b c = 1} = {3..<10} \<times> {..<5} \<times> {..<10}"
    by (auto simp: band_tape split: if_splits)
  have 2: "{(a, b, c). a < 10 \<and> b < 10 \<and> c < 10 \<and> ?band a b c = 2} = {3..<10} \<times> {5..<10} \<times> {..<7}"
    by (auto simp: band_tape split: if_splits)
  have 3: "{(a, b, c). a < 10 \<and> b < 10 \<and> c < 10 \<and> ?band a b c = 3} = {3..<10} \<times> {5..<10} \<times> {7..<10}"
    by (auto simp: band_tape split: if_splits)
  show ?thesis unfolding 0 1 2 3 by (simp add: card_cartesian_product)
qed

section \<open>Compression-friendly data\<close>

lemma compression_loop_shape:
  "\<exists>vs. length vs = n \<and> list_all (\<lambda>v. length v = 10) vs \<and>
     fst (compression_loop R now bs bo i n recs g) =
       recs @ map (\<lambda>(j, v). JObj [(''id'', JInt (int j)), (''base_string'', JStr bs),
                                  (''base_object'', JObj bo), (''varying_field'', JStr v),
                                  (''timestamp'', JIso (now j))])
                (zip [i..<i + n] vs)"
proof (induction n arbitrary: i recs g)
  case 0
  show ?case by simp
next
  case (Suc n)
  obtain v g1 where v: "generate_string R 10 g = (v, g1)" by (cases "generate_string R 10 g")
  have lv: "length v = 10" using generate_string_length [of R 10 g] v by simp
  let ?r = "JObj [(''id'', JInt (int i)), (''base_string'', JStr bs),
                  (''base_object'', JObj bo), (''varying_field'', JStr v),
                  (''timestamp'', JIso (now i))]"
  from Suc [of "Suc i" "recs @ [?r]" g1] obtain vs where
    vs: "length vs = n" "list_all (\<lambda>v. length v = 10) vs"
      "fst (compression_loop R now bs bo (Suc i) n (recs @ [?r]) g1) =
       (recs @ [?r]) @ map (\<lambda>(j, v). JObj [(''id'', JInt (int j)), (''base_string'', JStr bs),
                                  (''base_object'', JObj bo), (''varying_field'', JStr v),
                                  (''timestamp'', JIso (now j))])
                (zip [Suc i..<Suc i + n] vs)"
    by blast
  have up: "[i..<i + Suc n] = i # [Suc i..<Suc i + n]"
    by (subst upt_conv_Cons) simp_all
  show ?case
    apply (rule exI [of _ "v # vs"])
    unfolding up using vs lv by (simp add: v)
qed

lemma compression_data_shape:
  "\<exists>bs bo vs. length vs = nat cnt \<and> list_all (\<lambda>v. length v = 10) vs \<and>
     fst (generate_compression_test_data R now cnt g) =
       map (\<lambda>(i, v). JObj [(''id'', JInt (int i)), (''base_string'', JStr bs),
                           (''base_object'', JObj bo), (''varying_field'', JStr v),
                           (''timestamp'', JIso (now i))])
         (zip [0..<nat cnt] vs)"
proof -
  obtain bs g1 where b: "generate_string R 1000 g = (bs, g1)" by (cases "generate_string R 1000 g")
  obtain bo g2 where o: "generate_object R 2 g1 = (bo, g2)" by (cases "generate_object R 2 g1")
  from compression_loop_shape [of "nat cnt" R now bs bo 0 "[]" g2]
  show ?thesis by (auto simp: generate_compression_test_data_def b o)
qed

text \<open>
  Claim C5, as amended. In a compression-friendly dataset of any count, 10 in particular,
  record \<open>i\<close> has exactly the fields \<open>id\<close>, \<open>base_string\<close>, \<open>base_object\<close>,
  \<open>varying_field\<close> and \<open>timestamp\<close>; \<open>base_string\<close> and \<open>base_object\<close> are the same
  values in all records; \<open>id\<close> is \<open>i\<close>, \<open>timestamp\<close> is the clock reading of record
  \<open>i\<close> and \<open>varying_field\<close> is a string of 10 characters. So the fields that differ
  across records are \<open>id\<close>, \<open>varying_field\<close> and \<open>timestamp\<close>.
\<close>

theorem compression_records_shared:
  "\<exists>bs bo vs. length vs = nat cnt \<and> list_all (\<lambda>v. length v = 10) vs \<and>
     fst (generate_compression_test_data R now cnt g) =
       map (\<lambda>(i, v). JObj [(''id'', JInt (int i)), (''base_string'', JStr bs),
                           (''base_object'', JObj bo), (''varying_field'', JStr v),
                           (''timestamp'', JIso (now i))])
         (zip [0..<nat cnt] vs)"
  by (rule compression_data_shape)

text \<open>
  The claim as stated lets only \<open>varying_field\<close> and \<open>timestamp\<close> differ, but the
  \<open>id\<close> of a record is its index: in a dataset of count 10 the first two records have the
  ids 0 and 1.
\<close>

theorem compression_id_counterexample:
  "field (fst (generate_compression_test_data tape_rng (\<lambda>i. 0) 10 []) ! 0) ''id'' \<noteq>
   field (fst (generate_compression_test_data tape_rng (\<lambda>i. 0) 10 []) ! 1) ''id''"
proof -
  obtain bs bo vs where vs: "length vs = nat 10"
    and d: "fst (generate_compression_test_data tape_rng (\<lambda>i. 0) 10 []) =
       map (\<lambda>(i, v). JObj [(''id'', JInt (int i)), (''base_string'', JStr bs),
                           (''base_object'', JObj bo), (''varying_field'', JStr v),
                           (''timestamp'', JIso ((\<lambda>i. 0) i))])
         (zip [0..<nat 10] vs)"
    using compression_data_shape [of 10 tape_rng "\<lambda>i. 0" "[]"] by blast
  show ?thesis unfolding d using vs by (simp add: field_def)
qed

section \<open>Time series\<close>

lemma add_seconds_ok:
  assumes "1 \<le> s" "s \<le> 3600" "int t + 3600000000 < int DT_LIMIT"
  shows "\<exists>t'. add_seconds t s = Inr t' \<and> t + 1000000 \<le> t' \<and> t' \<le> t + 3600000000"
  using assms by (auto simp: add_seconds_def Let_def)

lemma time_series_loop_steps:
  assumes "rng_ok R"
  shows "int t + int n * 3600000000 < int DT_LIMIT \<Longrightarrow>
         \<exists>new g' ts. time_series_loop R n t recs g = Inr (recs @ new, g') \<and>
            map timestamp_of new = map Some ts \<and> length ts = n \<and>
            (ts \<noteq> [] \<longrightarrow> hd ts = t) \<and>
            (\<forall>i. Suc i < n \<longrightarrow> ts ! i + 1000000 \<le> ts ! Suc i \<and> ts ! Suc i \<le> ts ! i + 3600000000)"
proof (induction n arbitrary: t recs g)
  case 0
  show ?case by simp
next
  case (Suc n)
  obtain v g1 where 1: "generate_float R g = (v, g1)" by (cases "generate_float R g")
  obtain c g2 where 2: "choice R [''A'', ''B'', ''C'', ''D''] g1 = (c, g2)"
    by (cases "choice R [''A'', ''B'', ''C'', ''D''] g1")
  obtain l g3 where 3: "choice R [''DEBUG'', ''INFO'', ''WARN'', ''ERROR''] g2 = (l, g3)"
    by (cases "choice R [''DEBUG'', ''INFO'', ''WARN'', ''ERROR''] g2")
  obtain len g4 where 4: "randint R 10 100 g3 = (len, g4)" by (cases "randint R 10 100 g3")
  obtain m g5 where 5: "generate_string R len g4 = (m, g5)" by (cases "generate_string R len g4")
  obtain step g6 where 6: "randint R 1 3600 g5 = (step, g6)" by (cases "randint R 1 3600 g5")
  let ?r = "JObj [(''timestamp'', JIso t), (''value'', JFloat v),
                  (''category'', JStr (pystr c)), (''level'', JStr (pystr l)),
                  (''message'', JStr m)]"
  from randint_range [OF assms, of 1 3600 g5] 6 have step: "1 \<le> step" "step \<le> 3600" by simp_all
  from Suc.prems have room: "int t + 3600000000 < int DT_LIMIT" by simp
  from add_seconds_ok [OF step room] obtain t' where
    t': "add_seconds t step = Inr t'" "t + 1000000 \<le> t'" "t' \<le> t + 3600000000" by blast
  have unfold: "time_series_loop R (Suc n) t recs g = time_series_loop R n t' (recs @ [?r]) g6"
    by (simp add: 1 2 3 4 5 6 t')
  from Suc.prems t'(3) have "int t' + int n * 3600000000 < int DT_LIMIT" by simp
  from Suc.IH [OF this, of "recs @ [?r]" g6] obtain new g' ts where
    ih: "time_series_loop R n t' (recs @ [?r]) g6 = Inr ((recs @ [?r]) @ new, g')"
      "map timestamp_of new = map Some ts" "length ts = n" "ts \<noteq> [] \<longrightarrow> hd ts = t'"
      "\<forall>i. Suc i < n \<longrightarrow> ts ! i + 1000000 \<le> ts ! Suc i \<and> ts ! Suc i \<le> ts ! i + 3600000000"
    by blast
  have ts_r: "timestamp_of ?r = Some t" by (simp add: timestamp_of_def field_def)
  have steps: "(t # ts) ! i + 1000000 \<le> (t # ts) ! Suc i \<and>
               (t # ts) ! Suc i \<le> (t # ts) ! i + 3600000000" if "Suc i < Suc n" for i
  proof (cases i)
    case 0
    with that ih(3) have "ts \<noteq> []" by auto
    with ih(4) have "ts ! 0 = t'" by (simp add: hd_conv_nth)
    with 0 t' show ?thesis by simp
  next
    case (Suc j)
    with that ih(5) show ?thesis by simp
  qed
  show ?case
    apply (rule exI [of _ "?r # new"])
    apply (rule exI [of _ g'])
    apply (rule exI [of _ "t # ts"])
    using ih(1,2,3) ts_r steps unfolding unfold by simp
qed

lemma time_series_loop_overflow:
  assumes "rng_ok R" "int DT_LIMIT \<le> int t + 1000000"
  shows "time_series_loop R (Suc n) t recs g = Inl OverflowError"
proof -
  have "add_seconds t (fst (randint R 1 3600 h)) = Inl OverflowError" for h
    using randint_range [OF assms(1), of 1 3600 h] assms(2)
    by (auto simp: add_seconds_def Let_def)
  then show ?thesis by (simp add: split_beta)
qed

text \<open>
  Claim C8, as amended. For every generator state (every seed), count \<open>N \<ge> 1\<close> and start
  time \<open>T\<close> such that \<open>T\<close> plus \<open>N\<close> hours does not pass the largest \<open>datetime\<close>,
  \<open>generate_time_series_data(N, T)\<close> returns \<open>N\<close> records; the first timestamp is \<open>T\<close>
  and each later one exceeds the one before it by at least 1 second and at most 3600.
\<close>

theorem time_series_timestamps:
  assumes "rng_ok R" and "1 \<le> N" and "int T + N * 3600000000 < int DT_LIMIT"
  shows "\<exists>recs g' ts. generate_time_series_data R N T g = Inr (recs, g') \<and>
           int (length recs) = N \<and> map timestamp_of recs = map Some ts \<and> ts ! 0 = T \<and>
           (\<forall>i. Suc i < length ts \<longrightarrow>
                ts ! i + 1000000 \<le> ts ! Suc i \<and> ts ! Suc i \<le> ts ! i + 3600000000)"
proof -
  from assms(2,3) have "int T + int (nat N) * 3600000000 < int DT_LIMIT" by simp
  from time_series_loop_steps [OF assms(1) this, of "[]" g] obtain new g' ts where
    n: "time_series_loop R (nat N) T [] g = Inr (new, g')"
      "map timestamp_of new = map Some ts" "length ts = nat N" "ts \<noteq> [] \<longrightarrow> hd ts = T"
      "\<forall>i. Suc i < nat N \<longrightarrow> ts ! i + 1000000 \<le> ts ! Suc i \<and> ts ! Suc i \<le> ts ! i + 3600000000"
    by auto
  from n(2) have "length new = length ts" by (metis length_map)
  moreover from n(3) assms(2) have "ts \<noteq> []" by auto
  ultimately show ?thesis
    using n assms(2) by (auto simp: generate_time_series_data_def hd_conv_nth)
qed

theorem time_series_timestamps_witness:
  "(1::int) \<le> 2 \<and> int 0 + 2 * 3600000000 < int DT_LIMIT \<and>
   map timestamp_of (fst (projr (generate_time_series_data tape_rng 2 0 []))) =
     [Some 0, Some 1000000]"
  using time_series_timestamps [OF tape_rng_ok, of 2 0 "[]"]
  by (simp add: generate_time_series_data_def DT_LIMIT_def numeral_2_eq_2 split_beta
      generate_float_def uniform_def choice_def randint_def tape_rng_simps
      tape_empty_generate_string add_seconds_def timestamp_of_def field_def)

text \<open>
  The claim as stated fails for a start time within one second of the largest
  \<open>datetime\<close>: the loop advances the time after every record, the last one included, and
  the addition raises \<open>OverflowError\<close>, so no list is returned even for a count of 1.
\<close>

theorem time_series_overflow_counterexample:
  "generate_time_series_data tape_rng 1 (DT_LIMIT - 1) [] = Inl OverflowError"
  using time_series_loop_overflow [OF tape_rng_ok, of "DT_LIMIT - 1" 0 "[]" "[]"]
  by (simp add: generate_time_series_data_def DT_LIMIT_def)

section \<open>Determinism of a generation run\<close>

lemma log_loop_clock:
  "map drop_timestamp recs1 = map drop_timestamp recs2 \<Longrightarrow>
   map drop_timestamp (fst (log_loop R now1 i n recs1 g)) =
   map drop_timestamp (fst (log_loop R now2 i n recs2 g))"
  by (induction n arbitrary: i recs1 recs2 g) (simp_all add: split_beta)

lemma compression_loop_clock:
  "map drop_timestamp recs1 = map drop_timestamp recs2 \<Longrightarrow>
   map drop_timestamp (fst (compression_loop R now1 bs bo i n recs1 g)) =
   map drop_timestamp (fst (compression_loop R now2 bs bo i n recs2 g))"
  by (induction n arbitrary: i recs1 recs2 g) (simp_all add: split_beta)

lemma time_series_loop_clock:
  "time_series_loop R n t1 recs1 g = Inr (d1, g1) \<Longrightarrow>
   time_series_loop R n t2 recs2 g = Inr (d2, g2) \<Longrightarrow>
   map drop_timestamp recs1 = map drop_timestamp recs2 \<Longrightarrow>
   map drop_timestamp d1 = map drop_timestamp d2"
proof (induction n arbitrary: t1 t2 recs1 recs2 g)
  case 0
  then show ?case by simp
next
  case (Suc n)
  obtain v h1 where 1: "generate_float R g = (v, h1)" by (cases "generate_float R g")
  obtain c h2 where 2: "choice R [''A'', ''B'', ''C'', ''D''] h1 = (c, h2)"
    by (cases "choice R [''A'', ''B'', ''C'', ''D''] h1")
  obtain l h3 where 3: "choice R [''DEBUG'', ''INFO'', ''WARN'', ''ERROR''] h2 = (l, h3)"
    by (cases "choice R [''DEBUG'', ''INFO'', ''WARN'', ''ERROR''] h2")
  obtain len h4 where 4: "randint R 10 100 h3 = (len, h4)" by (cases "randint R 10 100 h3")
  obtain m h5 where 5: "generate_string R len h4 = (m, h5)" by (cases "generate_string R len h4")
  obtain step h6 where 6: "randint R 1 3600 h5 = (step, h6)" by (cases "randint R 1 3600 h5")
  let ?r = "\<lambda>t. JObj [(''timestamp'', JIso t), (''value'', JFloat v),
                  (''category'', JStr (pystr c)), (''level'', JStr (pystr l)),
                  (''message'', JStr m)]"
  from Suc.prems(1) obtain t1' where
    a: "time_series_loop R n t1' (recs1 @ [?r t1]) h6 = Inr (d1, g1)"
    by (auto simp: 1 2 3 4 5 6 split: sum.splits)
  from Suc.prems(2) obtain t2' where
    b: "time_series_loop R n t2' (recs2 @ [?r t2]) h6 = Inr (d2, g2)"
    by (auto simp: 1 2 3 4 5 6 split: sum.splits)
  from Suc.prems(3) have "map drop_timestamp (recs1 @ [?r t1]) = map drop_timestamp (recs2 @ [?r t2])"
    by simp
  from Suc.IH [OF a b this] show ?case .
qed

text \<open>
  Claim C1, as amended. Two runs with the same seed and the same parameters that both
  return a dataset agree on every field of every record, the \<open>timestamp\<close> fields apart,
  whatever the clock reads in each run. In a category other than performance, stress and
  conformance the clock is never read: the datasets are equal, and so are their content
  hashes. The same holds in every category when the two runs read the same clock values.
  That the random source gives the same draws from the same seed is its contract, and is
  built into the model: the generator state after seeding is a function of the seed.
\<close>

theorem run_deterministic_up_to_clock:
  assumes "main_data R now1 a = Inr d1" and "main_data R now2 a = Inr d2"
  shows "map drop_timestamp d1 = map drop_timestamp d2 \<and>
         (arg_category a \<notin> {''performance'', ''stress'', ''conformance''} \<longrightarrow>
            d1 = d2 \<and> data_hash E sha256 d1 = data_hash E sha256 d2) \<and>
         ((\<forall>i. now1 i = now2 i) \<longrightarrow> d1 = d2 \<and> data_hash E sha256 d1 = data_hash E sha256 d2)"
proof -
  have same: "d1 = d2" if "\<forall>i. now1 i = now2 i"
  proof -
    from that have "now1 = now2" by auto
    with assms show ?thesis by simp
  qed
  have free: "d1 = d2" if "arg_category a \<notin> {''performance'', ''stress'', ''conformance''}"
    using assms that by (auto simp: main_data_def Let_def split: sum.splits option.splits if_splits)
  have drop: "map drop_timestamp d1 = map drop_timestamp d2"
  proof (cases "arg_category a \<in> {''performance'', ''stress'', ''conformance''}")
    case False
    with free show ?thesis by simp
  next
    case True
    then consider (perf) "arg_category a = ''performance''" | (stress) "arg_category a = ''stress''"
      | (conf) "arg_category a = ''conformance''" by auto
    then show ?thesis
    proof cases
      case perf
      with assms show ?thesis
        using log_loop_clock [of "[]" "[]" R now1 0 _ _ now2]
        by (auto simp: main_data_def Let_def generate_log_data_def split: sum.splits option.splits)
    next
      case stress
      with assms show ?thesis
        using compression_loop_clock [of "[]" "[]" R now1 _ _ 0 _ _ now2]
        by (auto simp: main_data_def Let_def generate_compression_test_data_def split_beta
            split: sum.splits option.splits)
    next
      case conf
      with assms show ?thesis
        using time_series_loop_clock [of R _ "now1 0" "[]" _ d1 _ "now2 0" "[]" d2]
        by (auto simp: main_data_def Let_def generate_time_series_data_def
            split: sum.splits option.splits prod.splits)
    qed
  qed
  show ?thesis using same free drop by blast
qed

theorem run_deterministic_up_to_clock_witness:
  "map drop_timestamp (projr (main_data tape_rng (\<lambda>i. 0)
      \<lparr>arg_seed = 42, arg_version = ''1.0.0'', arg_format = ''ndjson'',
       arg_category = ''performance'', arg_size = ''small'', arg_count = Some 1,
       arg_field_types = FIELD_TYPES\<rparr>)) =
   map drop_timestamp (projr (main_data tape_rng (\<lambda>i. 1)
      \<lparr>arg_seed = 42, arg_version = ''1.0.0'', arg_format = ''ndjson'',
       arg_category = ''performance'', arg_size = ''small'', arg_count = Some 1,
       arg_field_types = FIELD_TYPES\<rparr>))"
  using run_deterministic_up_to_clock [of tape_rng "\<lambda>i. 0"
      "\<lparr>arg_seed = 42, arg_version = ''1.0.0'', arg_format = ''ndjson'',
       arg_category = ''performance'', arg_size = ''small'', arg_count = Some 1,
       arg_field_types = FIELD_TYPES\<rparr>"
      "projr (main_data tape_rng (\<lambda>i. 0)
      \<lparr>arg_seed = 42, arg_version = ''1.0.0'', arg_format = ''ndjson'',
       arg_category = ''performance'', arg_size = ''small'', arg_count = Some 1,
       arg_field_types = FIELD_TYPES\<rparr>)"
      "\<lambda>i. 1"
      "projr (main_data tape_rng (\<lambda>i. 1)
      \<lparr>arg_seed = 42, arg_version = ''1.0.0'', arg_format = ''ndjson'',
       arg_category = ''performance'', arg_size = ''small'', arg_count = Some 1,
       arg_field_types = FIELD_TYPES\<rparr>)"]
  by (simp add: main_data_def)

text \<open>
  The claim as stated fails: a log record takes its timestamp from \<open>datetime.now()\<close>,
  so two runs with seed 42 and the same parameters, started at different times, give
  different datasets, and different serialized bytes.
\<close>

theorem run_clock_counterexample:
  "main_data tape_rng (\<lambda>i. 0)
      \<lparr>arg_seed = 42, arg_version = ''1.0.0'', arg_format = ''ndjson'',
       arg_category = ''performance'', arg_size = ''small'', arg_count = Some 1,
       arg_field_types = FIELD_TYPES\<rparr> \<noteq>
   main_data tape_rng (\<lambda>i. 1)
      \<lparr>arg_seed = 42, arg_version = ''1.0.0'', arg_format = ''ndjson'',
       arg_category = ''performance'', arg_size = ''small'', arg_count = Some 1,
       arg_field_types = FIELD_TYPES\<rparr>"
  by (simp add: main_data_def generate_log_data_def split_beta Let_def)

section \<open>The content hash does not depend on key order\<close>

lemma insort_key_map_same_key:
  assumes "\<And>x. f (r x) = f' x"
  shows "insort_key f (r x) (map r xs) = map r (insort_key f' x xs)"
  by (induction xs) (simp_all add: assms)

lemma sort_key_map_same_key:
  assumes "\<And>x. f (r x) = f' x"
  shows "sort_key f (map r xs) = map r (sort_key f' xs)"
  by (induction xs) (simp_all add: insort_key_map_same_key [of f r f', OF assms])

lemma dumps_obj_rendered:
  "dumps E True (JObj kvs) =
     ''{'' @ join '', ''
        (map (\<lambda>p. enc_str E (pystr (fst p)) @ '': '' @ snd p)
           (sort_key fst (map (\<lambda>kv. (fst kv, dumps E True (snd kv))) kvs))) @ ''}''"
proof -
  have "sort_key fst (map (\<lambda>kv. (fst kv, dumps E True (snd kv))) kvs) =
        map (\<lambda>kv. (fst kv, dumps E True (snd kv))) (sort_key fst kvs)"
    by (rule sort_key_map_same_key) simp
  then show ?thesis by (simp add: comp_def)
qed

lemma dumps_same_content:
  "same_content a b \<Longrightarrow> dumps E True a = dumps E True b"
proof (induction rule: same_content.induct)
  case (same_refl v)
  show ?case by simp
next
  case (same_arr xs ys)
  then have "map (dumps E True) xs = map (dumps E True) ys"
    by (induction rule: list_all2_induct) simp_all
  then show ?case by simp
next
  case (same_obj xs zs ys)
  let ?r = "\<lambda>kv. (fst kv, dumps E True (snd kv))"
  from same_obj(1) have xz: "map ?r xs = map ?r zs"
    by (induction rule: list_all2_induct) simp_all
  from same_obj(2) have "mset (map ?r zs) = mset (map ?r ys)" by (metis mset_map)
  moreover have "inj_on fst (set (map ?r zs))"
  proof -
    from same_obj(2) have "mset (map fst zs) = mset (map fst ys)" by (metis mset_map)
    with same_obj(3) have "distinct (map fst zs)" by (metis mset_eq_imp_distinct_iff)
    then have "distinct (map fst (map ?r zs))" by (simp add: comp_def)
    then show ?thesis by (metis distinct_map)
  qed
  ultimately have "sort_key fst (map ?r zs) = sort_key fst (map ?r ys)"
    by (rule sort_key_eq_sort_key)
  with xz show ?case unfolding dumps_obj_rendered by simp
qed

text \<open>
  Claim C6. The \<open>data_hash\<close> that \<open>generate_metadata\<close> records is the SHA-256 hex digest
  of the dataset serialized by \<open>json.dumps\<close> with \<open>sort_keys=True\<close>; and two datasets
  with the same content, whatever the insertion order of the keys of their dictionaries
  at any depth, have equal hashes. (That the digest has 256 bits is a property of the
  library's SHA-256, which is a parameter here.)
\<close>

theorem content_hash_key_order:
  assumes "same_content (JArr d1) (JArr d2)"
  shows "map_of (generate_metadata E sha256 rt version seed d1 params) ''data_hash'' =
           Some (JStr (pystr (sha256 (dumps E True (JArr d1))))) \<and>
         data_hash E sha256 d1 = data_hash E sha256 d2"
  using dumps_same_content [OF assms, of E]
  by (simp add: generate_metadata_def data_hash_def)

theorem content_hash_key_order_witness:
  "data_hash \<lparr>enc_str = map char_of, enc_float = (\<lambda>x. ''0.5''), isoformat = (\<lambda>t. [])\<rparr> (\<lambda>s. s)
     [JObj [(''b'', JInt 1), (''a'', JObj [(''y'', JNull), (''x'', JBool True)])]] =
   data_hash \<lparr>enc_str = map char_of, enc_float = (\<lambda>x. ''0.5''), isoformat = (\<lambda>t. [])\<rparr> (\<lambda>s. s)
     [JObj [(''a'', JObj [(''x'', JBool True), (''y'', JNull)]), (''b'', JInt 1)]] \<and>
   data_hash \<lparr>enc_str = map char_of, enc_float = (\<lambda>x. ''0.5''), isoformat = (\<lambda>t. [])\<rparr> (\<lambda>s. s)
     [JObj [(''b'', JInt 1), (''a'', JObj [(''y'', JNull), (''x'', JBool True)])]] =
   ''[{a: {x: true, y: null}, b: 1}]''"
proof -
  have inner: "same_content (JObj [(''y'', JNull), (''x'', JBool True)])
                            (JObj [(''x'', JBool True), (''y'', JNull)])"
    by (rule same_obj [where zs = "[(''y'', JNull), (''x'', JBool True)]"])
       (simp_all add: same_refl)
  have "same_content (JObj [(''b'', JInt 1), (''a'', JObj [(''y'', JNull), (''x'', JBool True)])])
                     (JObj [(''a'', JObj [(''x'', JBool True), (''y'', JNull)]), (''b'', JInt 1)])"
    by (rule same_obj [where zs = "[(''b'', JInt 1), (''a'', JObj [(''x'', JBool True), (''y'', JNull)])]"])
       (simp_all add: same_refl inner)
  then have "same_content
      (JArr [JObj [(''b'', JInt 1), (''a'', JObj [(''y'', JNull), (''x'', JBool True)])]])
      (JArr [JObj [(''a'', JObj [(''x'', JBool True), (''y'', JNull)]), (''b'', JInt 1)]])"
    by (intro same_arr) simp
  from content_hash_key_order [OF this] show ?thesis
    by (simp add: data_hash_def join_def pystr_def str_int_def str_nat.simps)
qed

end
